theory Spec2Isabelle
  imports Main "HOL-Library.Word" "HOL-Library.Signed_Division"
begin

unbundle bit_operations_syntax

section \<open>A Brainfuck JIT compiler for x86-64: the emitter and the compiler\<close>

text \<open>
  The C program translates Brainfuck source text to x86-64 machine code in a buffer
  obtained from \<open>mmap\<close>, flips the buffer from writable to executable and calls it.
  This theory embeds the emit helpers, the instruction encoders, the bracket validator,
  the compile loop and \<open>main\<close>, and a small model of the x86-64 instructions that the
  encoders can produce.

  Conventions of the embedding:
  \<^item> the code buffer is the list of the bytes emitted so far, so \<open>code_len\<close> is its length;
  \<^item> \<open>size_t\<close> offsets are natural numbers (bounded by \<open>CODE_SIZE\<close> through \<open>check_space\<close>);
    where the source computes with them modulo \<open>2^64\<close> and casts to 32 bits, the model
    uses 64-bit and 32-bit words;
  \<^item> the C \<open>int\<close> counters (run deltas, nesting depth) are mathematical integers. They
    never exceed the number of characters read (lemmas \<open>validate_loop_counters\<close>,
    \<open>scan_cell_delta_bound\<close> and \<open>scan_ptr_delta_bound\<close>), so they stay inside the
    range of a 32-bit \<open>int\<close> for every source text shorter than \<open>2^31\<close> characters;
    the theorems on the diagnostics of the validator and on run-length collapsing state
    this bound;
  \<^item> \<open>exit(1)\<close> inside \<open>check_space\<close> and \<open>return -1\<close> of \<open>compile\<close> are distinct
    error values;
  \<^item> the functions of the compiler are modelled for a run in which every \<open>realloc\<close> of
    the verbose log succeeds. A run in which one of them fails is a branch of \<open>build\<close>
    (field \<open>vlog_realloc_ok\<close> of the environment): \<open>vlog_push\<close> calls
    \<open>perror("realloc")\<close> and \<open>exit(1)\<close> inside \<open>compile\<close>, after the prologue has been
    written and with both regions mapped.
\<close>

type_synonym u8 = "8 word"
type_synonym u32 = "32 word"
type_synonym u64 = "64 word"

subsection \<open>Constants\<close>

definition CODE_SIZE :: nat where
  "CODE_SIZE = 2 ^ 20"

definition TAPE_SIZE :: nat where
  "TAPE_SIZE = 2 ^ 16"

definition MAX_NESTING :: nat where
  "MAX_NESTING = 256"

subsection \<open>Code buffer state and verbose log\<close>

record log_entry =
  offset :: nat
  len :: nat
  desc :: string

record jit_state =
  code :: "u8 list"
  vlog :: "log_entry list"
  verbose :: bool

text \<open>The addresses of the two C library routines, fixed when the process is loaded.\<close>

record linkage =
  putchar_addr :: u64
  getchar_addr :: u64

datatype compile_error =
    Buffer_overflow nat nat      \<comment> \<open>\<open>check_space\<close>: bytes used, bytes needed; the process exits\<close>
  | Unmatched_close_compile nat  \<comment> \<open>\<open>compile\<close> returns -1 at this source position\<close>
  | Fixups_out_of_bounds         \<comment> \<open>a store past \<open>fixups[MAX_NESTING - 1]\<close>: undefined in C\<close>

definition bind_err :: "'e + 'a \<Rightarrow> ('a \<Rightarrow> 'e + 'b) \<Rightarrow> 'e + 'b" where
  "bind_err m f = (case m of Inl e \<Rightarrow> Inl e | Inr x \<Rightarrow> f x)"

text \<open>
  \<open>vlog_push\<close> in a run where \<open>realloc\<close> succeeds; \<open>snprintf\<close> into \<open>desc[80]\<close> keeps at
  most 79 characters. A failing \<open>realloc\<close> ends the process with \<open>perror\<close> and \<open>exit(1)\<close>;
  that run is a branch of \<open>build\<close>.
\<close>

definition vlog_push :: "nat \<Rightarrow> nat \<Rightarrow> string \<Rightarrow> jit_state \<Rightarrow> jit_state" where
  "vlog_push off n d st =
     (if \<not> verbose st then st
      else st\<lparr>vlog := vlog st @ [\<lparr>offset = off, len = n, desc = take 79 d\<rparr>]\<rparr>)"

subsection \<open>Emit helpers\<close>

definition check_space :: "nat \<Rightarrow> jit_state \<Rightarrow> compile_error + jit_state" where
  "check_space need st =
     (if length (code st) + need > CODE_SIZE
      then Inl (Buffer_overflow (length (code st)) need)
      else Inr st)"

definition emit_byte :: "u8 \<Rightarrow> jit_state \<Rightarrow> compile_error + jit_state" where
  "emit_byte b st = bind_err (check_space 1 st) (\<lambda>s. Inr (s\<lparr>code := code s @ [b]\<rparr>))"

definition emit_bytes :: "u8 list \<Rightarrow> jit_state \<Rightarrow> compile_error + jit_state" where
  "emit_bytes buf st =
     bind_err (check_space (length buf) st) (\<lambda>s. Inr (s\<lparr>code := code s @ buf\<rparr>))"

text \<open>\<open>memcpy\<close> of an integer on x86-64 stores its bytes least significant first.\<close>

definition u32_bytes :: "u32 \<Rightarrow> u8 list" where
  "u32_bytes v = [ucast v, ucast (drop_bit 8 v), ucast (drop_bit 16 v), ucast (drop_bit 24 v)]"

definition u64_bytes :: "u64 \<Rightarrow> u8 list" where
  "u64_bytes v =
     [ucast v, ucast (drop_bit 8 v), ucast (drop_bit 16 v), ucast (drop_bit 24 v),
      ucast (drop_bit 32 v), ucast (drop_bit 40 v), ucast (drop_bit 48 v),
      ucast (drop_bit 56 v)]"

definition emit_u32 :: "u32 \<Rightarrow> jit_state \<Rightarrow> compile_error + jit_state" where
  "emit_u32 v st = bind_err (check_space 4 st) (\<lambda>s. Inr (s\<lparr>code := code s @ u32_bytes v\<rparr>))"

definition emit_u64 :: "u64 \<Rightarrow> jit_state \<Rightarrow> compile_error + jit_state" where
  "emit_u64 v st = bind_err (check_space 8 st) (\<lambda>s. Inr (s\<lparr>code := code s @ u64_bytes v\<rparr>))"

text \<open>
  \<open>patch_u32\<close> overwrites four bytes in place. The compiler only passes offsets of
  placeholders it has emitted (lemma \<open>run_ops_fixups_bounded\<close> below), so the
  out-of-range case of the list update never arises.
\<close>

fun store_bytes :: "u8 list \<Rightarrow> nat \<Rightarrow> u8 list \<Rightarrow> u8 list" where
  "store_bytes buf off [] = buf"
| "store_bytes buf off (b # bs) = store_bytes (buf[off := b]) (Suc off) bs"

definition patch_u32 :: "nat \<Rightarrow> u32 \<Rightarrow> jit_state \<Rightarrow> jit_state" where
  "patch_u32 off v st = st\<lparr>code := store_bytes (code st) off (u32_bytes v)\<rparr>"

subsection \<open>Decimal formatting for the log descriptions\<close>

fun show_nat :: "nat \<Rightarrow> string" where
  "show_nat n =
     (if n < 10 then [char_of (48 + n)]
      else show_nat (n div 10) @ [char_of (48 + n mod 10)])"

definition show_int :: "int \<Rightarrow> string" where
  "show_int k = (if k < 0 then CHR ''-'' # show_nat (nat (- k)) else show_nat (nat k))"

text \<open>Reading a decimal numeral back, to state what \<open>show_nat\<close> prints.\<close>

definition is_digit :: "char \<Rightarrow> bool" where
  "is_digit c = (48 \<le> (of_char c :: nat) \<and> (of_char c :: nat) \<le> 57)"

definition read_digits :: "string \<Rightarrow> nat" where
  "read_digits s = foldl (\<lambda>a c. 10 * a + (of_char c - 48)) 0 s"

subsection \<open>Prologue and epilogue\<close>

definition prologue :: "u8 list" where
  "prologue = [0x55, 0x48, 0x89, 0xe5, 0x41, 0x54, 0x41, 0x55,
               0x49, 0x89, 0xfc, 0x45, 0x31, 0xed]"

definition epilogue :: "u8 list" where
  "epilogue = [0x41, 0x5d, 0x41, 0x5c, 0x5d, 0xc3]"

definition emit_prologue :: "jit_state \<Rightarrow> compile_error + jit_state" where
  "emit_prologue st =
     (let start = length (code st) in
      bind_err (emit_bytes prologue st) (\<lambda>s.
      Inr (vlog_push start (length prologue)
        ''push rbp; mov rbp,rsp; push r12; push r13; mov r12,rdi; xor r13d,r13d'' s)))"

definition emit_epilogue :: "jit_state \<Rightarrow> compile_error + jit_state" where
  "emit_epilogue st =
     (let start = length (code st) in
      bind_err (emit_bytes epilogue st) (\<lambda>s.
      Inr (vlog_push start (length epilogue) ''pop r13; pop r12; pop rbp; ret'' s)))"

subsection \<open>Instruction encoders\<close>

definition emit_add_cell :: "int \<Rightarrow> jit_state \<Rightarrow> compile_error + jit_state" where
  "emit_add_cell n st =
     (let start = length (code st) in
      if n = 1 then
        bind_err (emit_bytes [0x43, 0xfe, 0x04, 0x2c] st) (\<lambda>s.
        Inr (vlog_push start (length (code s) - start) ''inc byte [r12+r13]'' s))
      else if n = - 1 then
        bind_err (emit_bytes [0x43, 0xfe, 0x0c, 0x2c] st) (\<lambda>s.
        Inr (vlog_push start (length (code s) - start) ''dec byte [r12+r13]'' s))
      else if n > 0 then
        bind_err (emit_bytes [0x43, 0x80, 0x04, 0x2c, word_of_int n] st) (\<lambda>s.
        Inr (vlog_push start (length (code s) - start)
               (''add byte [r12+r13], '' @ show_int n) s))
      else
        bind_err (emit_bytes [0x43, 0x80, 0x2c, 0x2c, word_of_int (- n)] st) (\<lambda>s.
        Inr (vlog_push start (length (code s) - start)
               (''sub byte [r12+r13], '' @ show_int (- n)) s)))"

definition emit_move_ptr :: "int \<Rightarrow> jit_state \<Rightarrow> compile_error + jit_state" where
  "emit_move_ptr n st =
     (let start = length (code st) in
      if n = 1 then
        bind_err (emit_bytes [0x49, 0xff, 0xc5] st) (\<lambda>s.
        Inr (vlog_push start (length (code s) - start) ''inc r13'' s))
      else if n = - 1 then
        bind_err (emit_bytes [0x49, 0xff, 0xcd] st) (\<lambda>s.
        Inr (vlog_push start (length (code s) - start) ''dec r13'' s))
      else if n > 0 \<and> n \<le> 127 then
        bind_err (emit_bytes [0x49, 0x83, 0xc5, word_of_int n] st) (\<lambda>s.
        Inr (vlog_push start (length (code s) - start) (''add r13, '' @ show_int n) s))
      else if n < 0 \<and> n \<ge> - 127 then
        bind_err (emit_bytes [0x49, 0x83, 0xed, word_of_int (- n)] st) (\<lambda>s.
        Inr (vlog_push start (length (code s) - start) (''sub r13, '' @ show_int (- n)) s))
      else if n > 0 then
        bind_err (emit_byte 0x49 st) (\<lambda>s1.
        bind_err (emit_byte 0x81 s1) (\<lambda>s2.
        bind_err (emit_byte 0xc5 s2) (\<lambda>s3.
        bind_err (emit_u32 (word_of_int n) s3) (\<lambda>s.
        Inr (vlog_push start (length (code s) - start) (''add r13, '' @ show_int n) s)))))
      else
        bind_err (emit_byte 0x49 st) (\<lambda>s1.
        bind_err (emit_byte 0x81 s1) (\<lambda>s2.
        bind_err (emit_byte 0xed s2) (\<lambda>s3.
        bind_err (emit_u32 (word_of_int (- n)) s3) (\<lambda>s.
        Inr (vlog_push start (length (code s) - start)
               (''sub r13, '' @ show_int (- n)) s))))))"

definition emit_putchar :: "linkage \<Rightarrow> jit_state \<Rightarrow> compile_error + jit_state" where
  "emit_putchar lk st =
     (let start = length (code st) in
      bind_err (emit_bytes [0x43, 0x0f, 0xb6, 0x3c, 0x2c] st) (\<lambda>s1.
      bind_err (emit_byte 0x48 s1) (\<lambda>s2.
      bind_err (emit_byte 0xb8 s2) (\<lambda>s3.
      bind_err (emit_u64 (putchar_addr lk) s3) (\<lambda>s4.
      bind_err (emit_byte 0xff s4) (\<lambda>s5.
      bind_err (emit_byte 0xd0 s5) (\<lambda>s.
      Inr (vlog_push start (length (code s) - start)
             ''movzx edi,[r12+r13]; mov rax,putchar; call rax'' s))))))))"

definition emit_getchar :: "linkage \<Rightarrow> jit_state \<Rightarrow> compile_error + jit_state" where
  "emit_getchar lk st =
     (let start = length (code st) in
      bind_err (emit_byte 0x48 st) (\<lambda>s1.
      bind_err (emit_byte 0xb8 s1) (\<lambda>s2.
      bind_err (emit_u64 (getchar_addr lk) s2) (\<lambda>s3.
      bind_err (emit_byte 0xff s3) (\<lambda>s4.
      bind_err (emit_byte 0xd0 s4) (\<lambda>s5.
      bind_err (emit_bytes [0x43, 0x88, 0x04, 0x2c] s5) (\<lambda>s.
      Inr (vlog_push start (length (code s) - start)
             ''mov rax,getchar; call rax; mov [r12+r13],al'' s))))))))"

definition cmp_cell_zero :: "u8 list" where
  "cmp_cell_zero = [0x43, 0x80, 0x3c, 0x2c, 0x00]"

definition emit_cmp_cell_zero :: "jit_state \<Rightarrow> compile_error + jit_state" where
  "emit_cmp_cell_zero st = emit_bytes cmp_cell_zero st"

text \<open>\<open>emit_loop_open\<close> returns the offset of the four-byte placeholder.\<close>

definition emit_loop_open :: "jit_state \<Rightarrow> compile_error + (nat \<times> jit_state)" where
  "emit_loop_open st =
     (let start = length (code st) in
      bind_err (emit_cmp_cell_zero st) (\<lambda>s1.
      bind_err (emit_byte 0x0f s1) (\<lambda>s2.
      bind_err (emit_byte 0x84 s2) (\<lambda>s3.
      let fixup = length (code s3) in
      bind_err (emit_u32 0 s3) (\<lambda>s.
      Inr (fixup, vlog_push start (length (code s) - start)
             ''cmp byte [r12+r13],0; je <forward>'' s))))))"

text \<open>
  The two displacements are computed in \<open>size_t\<close> (64-bit, wrapping) and cast to
  \<open>int32_t\<close>, which keeps the low 32 bits.
\<close>

definition back_disp :: "nat \<Rightarrow> nat \<Rightarrow> u32" where
  "back_disp open_fixup code_len =
     ucast (((of_nat open_fixup :: u64) - 7) - (of_nat code_len + 4))"

definition fwd_disp :: "nat \<Rightarrow> nat \<Rightarrow> u32" where
  "fwd_disp open_fixup code_len =
     ucast ((of_nat code_len :: u64) - (of_nat open_fixup + 4))"

definition emit_loop_close :: "nat \<Rightarrow> jit_state \<Rightarrow> compile_error + jit_state" where
  "emit_loop_close open_fixup st =
     (let start = length (code st) in
      bind_err (emit_cmp_cell_zero st) (\<lambda>s1.
      bind_err (emit_byte 0x0f s1) (\<lambda>s2.
      bind_err (emit_byte 0x85 s2) (\<lambda>s3.
      bind_err (emit_u32 (back_disp open_fixup (length (code s3))) s3) (\<lambda>s4.
      let s5 = patch_u32 open_fixup (fwd_disp open_fixup (length (code s4))) s4 in
      Inr (vlog_push start (length (code s5) - start)
             ''cmp byte [r12+r13],0; jne <back>'' s5))))))"

subsection \<open>Bracket validation\<close>

datatype validate_error =
    Unmatched_close nat          \<comment> \<open>position of the \<open>]\<close>\<close>
  | Unmatched_open nat int       \<comment> \<open>\<open>first_unmatched\<close> and the number unclosed\<close>
  | Nesting_exceeds int          \<comment> \<open>\<open>max_depth\<close>, above \<open>MAX_NESTING\<close>\<close>

text \<open>
  The \<open>for\<close> loop of \<open>validate_brackets\<close>: position \<open>i\<close>, then \<open>depth\<close>,
  \<open>max_depth\<close> and \<open>first_unmatched\<close>. The two \<open>int\<close> counters are integers here; they
  stay between 0 and the number of characters read (lemma \<open>validate_loop_counters\<close>).
\<close>

fun validate_loop ::
  "string \<Rightarrow> nat \<Rightarrow> int \<Rightarrow> int \<Rightarrow> nat \<Rightarrow> validate_error + (int \<times> int \<times> nat)" where
  "validate_loop [] i depth max_depth first_unmatched = Inr (depth, max_depth, first_unmatched)"
| "validate_loop (c # cs) i depth max_depth first_unmatched =
     (if c = CHR ''['' then
        validate_loop cs (Suc i) (depth + 1)
          (if depth + 1 > max_depth then depth + 1 else max_depth)
          (if depth = 0 then i else first_unmatched)
      else if c = CHR '']'' then
        (if depth = 0 then Inl (Unmatched_close i)
         else validate_loop cs (Suc i) (depth - 1) max_depth first_unmatched)
      else validate_loop cs (Suc i) depth max_depth first_unmatched)"

definition validate_brackets :: "string \<Rightarrow> validate_error + unit" where
  "validate_brackets src =
     (case validate_loop src 0 0 0 0 of
        Inl e \<Rightarrow> Inl e
      | Inr (depth, max_depth, first_unmatched) \<Rightarrow>
          if depth \<noteq> 0 then Inl (Unmatched_open first_unmatched depth)
          else if max_depth > int MAX_NESTING then Inl (Nesting_exceeds max_depth)
          else Inr ())"

subsection \<open>Compilation\<close>

text \<open>The two inner \<open>while\<close> loops: they return the rest of the source, the new \<open>i\<close> and the delta.\<close>

fun scan_cell :: "string \<Rightarrow> nat \<Rightarrow> int \<Rightarrow> string \<times> nat \<times> int" where
  "scan_cell [] i delta = ([], i, delta)"
| "scan_cell (c # cs) i delta =
     (if c = CHR ''+'' \<or> c = CHR ''-''
      then scan_cell cs (Suc i) (delta + (if c = CHR ''+'' then 1 else - 1))
      else (c # cs, i, delta))"

fun scan_ptr :: "string \<Rightarrow> nat \<Rightarrow> int \<Rightarrow> string \<times> nat \<times> int" where
  "scan_ptr [] i delta = ([], i, delta)"
| "scan_ptr (c # cs) i delta =
     (if c = CHR ''>'' \<or> c = CHR ''<''
      then scan_ptr cs (Suc i) (delta + (if c = CHR ''>'' then 1 else - 1))
      else (c # cs, i, delta))"

text \<open>
  The main loop of \<open>compile\<close>. The fixup stack \<open>fixups[0..depth)\<close> is a list with the
  top first. \<open>delta % 256\<close> is C's truncating remainder, \<open>smod\<close>.
\<close>

function compile_loop ::
  "linkage \<Rightarrow> string \<Rightarrow> nat \<Rightarrow> nat list \<Rightarrow> jit_state \<Rightarrow> compile_error + (nat list \<times> jit_state)"
  where
  "compile_loop lk [] i fixups st = Inr (fixups, st)"
| "compile_loop lk (c # cs) i fixups st =
     (if c = CHR ''+'' \<or> c = CHR ''-'' then
        (let r = scan_cell (c # cs) i 0;
             delta = ((snd (snd r) smod 256) + 256) smod 256
         in if delta = 0 then compile_loop lk (fst r) (fst (snd r)) fixups st
            else bind_err
                   (if delta \<le> 128 then emit_add_cell delta st
                    else emit_add_cell (delta - 256) st)
                   (\<lambda>s. compile_loop lk (fst r) (fst (snd r)) fixups s))
      else if c = CHR ''>'' \<or> c = CHR ''<'' then
        (let r = scan_ptr (c # cs) i 0;
             delta = snd (snd r)
         in if delta = 0 then compile_loop lk (fst r) (fst (snd r)) fixups st
            else bind_err (emit_move_ptr delta st)
                   (\<lambda>s. compile_loop lk (fst r) (fst (snd r)) fixups s))
      else if c = CHR ''.'' then
        bind_err (emit_putchar lk st) (\<lambda>s. compile_loop lk cs (Suc i) fixups s)
      else if c = CHR '','' then
        bind_err (emit_getchar lk st) (\<lambda>s. compile_loop lk cs (Suc i) fixups s)
      else if c = CHR ''['' then
        bind_err (emit_loop_open st) (\<lambda>(fixup, s).
          if length fixups \<ge> MAX_NESTING then Inl Fixups_out_of_bounds
          else compile_loop lk cs (Suc i) (fixup # fixups) s)
      else if c = CHR '']'' then
        (case fixups of
           [] \<Rightarrow> Inl (Unmatched_close_compile i)
         | open_fixup # rest \<Rightarrow>
             bind_err (emit_loop_close open_fixup st) (\<lambda>s. compile_loop lk cs (Suc i) rest s))
      else compile_loop lk cs (Suc i) fixups st)"
  by pat_completeness auto

termination
proof -
  have cell: "length (fst (scan_cell s i d)) \<le> length s" for s i d
    by (induction s arbitrary: i d) (auto intro: le_SucI)
  have ptr: "length (fst (scan_ptr s i d)) \<le> length s" for s i d
    by (induction s arbitrary: i d) (auto intro: le_SucI)
  show ?thesis
    by (relation "measure (\<lambda>(lk, s, i, fx, st). length s)")
       (auto simp: le_imp_less_Suc cell ptr)
qed

text \<open>
  \<open>compile\<close>: prologue, loop, epilogue. The nesting depth at the end of the loop is not
  looked at. \<open>main\<close> sets \<open>code_len = 0\<close> before the call; the log is empty at start.
\<close>

definition initial_state :: "bool \<Rightarrow> jit_state" where
  "initial_state v = \<lparr>code = [], vlog = [], verbose = v\<rparr>"

definition compile :: "linkage \<Rightarrow> string \<Rightarrow> jit_state \<Rightarrow> compile_error + jit_state" where
  "compile lk src st =
     bind_err (emit_prologue st) (\<lambda>s.
     bind_err (compile_loop lk src 0 [] s) (\<lambda>(fixups, s').
     emit_epilogue s'))"

section \<open>The target machine\<close>

text \<open>
  The x86-64 instructions that the encoders above can produce, with the encodings listed
  in the comments of the source, and their effect on the registers the generated code
  uses. The stack is kept apart from the data memory; the C library routine called
  through \<open>rax\<close> is recognised by its address and preserves the callee-saved registers.
\<close>

datatype insn =
    Inc_cell | Dec_cell | Add_cell u8 | Sub_cell u8 | Cmp_cell u8
  | Inc_r13 | Dec_r13 | Add_r13_imm8 u8 | Sub_r13_imm8 u8
  | Add_r13_imm32 u32 | Sub_r13_imm32 u32
  | Movzx_edi_cell | Mov_rax_imm64 u64 | Call_rax | Mov_cell_al
  | Je u32 | Jne u32
  | Push_rbp | Mov_rbp_rsp | Push_r12 | Push_r13 | Mov_r12_rdi | Xor_r13d
  | Pop_r13 | Pop_r12 | Pop_rbp | Ret

definition starts :: "u8 list \<Rightarrow> u8 list \<Rightarrow> bool" where
  "starts p bs = (take (length p) bs = p)"

text \<open>Immediates are stored least significant byte first.\<close>

definition le32 :: "u8 list \<Rightarrow> u32" where
  "le32 bs =
     (case bs of
        b0 # b1 # b2 # b3 # rest \<Rightarrow>
          ucast b0 OR push_bit 8 (ucast b1) OR push_bit 16 (ucast b2) OR push_bit 24 (ucast b3)
      | _ \<Rightarrow> 0)"

definition le64 :: "u8 list \<Rightarrow> u64" where
  "le64 bs =
     (case bs of
        b0 # b1 # b2 # b3 # b4 # b5 # b6 # b7 # rest \<Rightarrow>
          ucast b0 OR push_bit 8 (ucast b1) OR push_bit 16 (ucast b2) OR push_bit 24 (ucast b3)
          OR push_bit 32 (ucast b4) OR push_bit 40 (ucast b5) OR push_bit 48 (ucast b6)
          OR push_bit 56 (ucast b7)
      | _ \<Rightarrow> 0)"

text \<open>\<open>decode bs\<close> is the instruction at the head of \<open>bs\<close> and its length in bytes.\<close>

definition decode :: "u8 list \<Rightarrow> (insn \<times> nat) option" where
  "decode bs =
     (if starts [0x43, 0xfe, 0x04, 0x2c] bs then Some (Inc_cell, 4)
      else if starts [0x43, 0xfe, 0x0c, 0x2c] bs then Some (Dec_cell, 4)
      else if starts [0x43, 0x80, 0x04, 0x2c] bs \<and> 5 \<le> length bs then Some (Add_cell (bs ! 4), 5)
      else if starts [0x43, 0x80, 0x2c, 0x2c] bs \<and> 5 \<le> length bs then Some (Sub_cell (bs ! 4), 5)
      else if starts [0x43, 0x80, 0x3c, 0x2c] bs \<and> 5 \<le> length bs then Some (Cmp_cell (bs ! 4), 5)
      else if starts [0x49, 0xff, 0xc5] bs then Some (Inc_r13, 3)
      else if starts [0x49, 0xff, 0xcd] bs then Some (Dec_r13, 3)
      else if starts [0x49, 0x83, 0xc5] bs \<and> 4 \<le> length bs then Some (Add_r13_imm8 (bs ! 3), 4)
      else if starts [0x49, 0x83, 0xed] bs \<and> 4 \<le> length bs then Some (Sub_r13_imm8 (bs ! 3), 4)
      else if starts [0x49, 0x81, 0xc5] bs \<and> 7 \<le> length bs
        then Some (Add_r13_imm32 (le32 (drop 3 bs)), 7)
      else if starts [0x49, 0x81, 0xed] bs \<and> 7 \<le> length bs
        then Some (Sub_r13_imm32 (le32 (drop 3 bs)), 7)
      else if starts [0x43, 0x0f, 0xb6, 0x3c, 0x2c] bs then Some (Movzx_edi_cell, 5)
      else if starts [0x48, 0xb8] bs \<and> 10 \<le> length bs
        then Some (Mov_rax_imm64 (le64 (drop 2 bs)), 10)
      else if starts [0xff, 0xd0] bs then Some (Call_rax, 2)
      else if starts [0x43, 0x88, 0x04, 0x2c] bs then Some (Mov_cell_al, 4)
      else if starts [0x0f, 0x84] bs \<and> 6 \<le> length bs then Some (Je (le32 (drop 2 bs)), 6)
      else if starts [0x0f, 0x85] bs \<and> 6 \<le> length bs then Some (Jne (le32 (drop 2 bs)), 6)
      else if starts [0x55] bs then Some (Push_rbp, 1)
      else if starts [0x48, 0x89, 0xe5] bs then Some (Mov_rbp_rsp, 3)
      else if starts [0x41, 0x54] bs then Some (Push_r12, 2)
      else if starts [0x41, 0x55] bs then Some (Push_r13, 2)
      else if starts [0x49, 0x89, 0xfc] bs then Some (Mov_r12_rdi, 3)
      else if starts [0x45, 0x31, 0xed] bs then Some (Xor_r13d, 3)
      else if starts [0x41, 0x5d] bs then Some (Pop_r13, 2)
      else if starts [0x41, 0x5c] bs then Some (Pop_r12, 2)
      else if starts [0x5d] bs then Some (Pop_rbp, 1)
      else if starts [0xc3] bs then Some (Ret, 1)
      else None)"

record machine =
  pc :: nat
  rax :: u64
  rdi :: u64
  rbp :: u64
  rsp :: u64
  r12 :: u64
  r13 :: u64
  zf :: bool
  mem :: "u64 \<Rightarrow> u8"
  stack :: "u64 list"
  inp :: "u8 list"
  outp :: "u8 list"
  halted :: bool

definition cell_addr :: "machine \<Rightarrow> u64" where
  "cell_addr m = r12 m + r13 m"

definition set_cell :: "u8 \<Rightarrow> machine \<Rightarrow> machine" where
  "set_cell v m = m\<lparr>mem := (mem m)(cell_addr m := v), zf := (v = 0)\<rparr>"

definition set_r13 :: "u64 \<Rightarrow> machine \<Rightarrow> machine" where
  "set_r13 v m = m\<lparr>r13 := v, zf := (v = 0)\<rparr>"

definition push :: "u64 \<Rightarrow> machine \<Rightarrow> machine" where
  "push v m = m\<lparr>rsp := rsp m - 8, stack := v # stack m\<rparr>"

definition jump :: "u32 \<Rightarrow> machine \<Rightarrow> machine option" where
  "jump d m =
     (let target = int (pc m) + sint d
      in if target < 0 then None else Some (m\<lparr>pc := nat target\<rparr>))"

text \<open>
  The effect of one instruction; \<open>pc\<close> already points past it, as the relative jumps
  require. \<open>None\<close> is a fault: a call to an unknown address, a pop or a return on a
  stack that does not hold the matching value, a jump before the buffer.
\<close>

fun exec_insn :: "linkage \<Rightarrow> insn \<Rightarrow> machine \<Rightarrow> machine option" where
  "exec_insn lk Inc_cell m = Some (set_cell (mem m (cell_addr m) + 1) m)"
| "exec_insn lk Dec_cell m = Some (set_cell (mem m (cell_addr m) - 1) m)"
| "exec_insn lk (Add_cell k) m = Some (set_cell (mem m (cell_addr m) + k) m)"
| "exec_insn lk (Sub_cell k) m = Some (set_cell (mem m (cell_addr m) - k) m)"
| "exec_insn lk (Cmp_cell k) m = Some (m\<lparr>zf := (mem m (cell_addr m) = k)\<rparr>)"
| "exec_insn lk Inc_r13 m = Some (set_r13 (r13 m + 1) m)"
| "exec_insn lk Dec_r13 m = Some (set_r13 (r13 m - 1) m)"
| "exec_insn lk (Add_r13_imm8 k) m = Some (set_r13 (r13 m + scast k) m)"
| "exec_insn lk (Sub_r13_imm8 k) m = Some (set_r13 (r13 m - scast k) m)"
| "exec_insn lk (Add_r13_imm32 k) m = Some (set_r13 (r13 m + scast k) m)"
| "exec_insn lk (Sub_r13_imm32 k) m = Some (set_r13 (r13 m - scast k) m)"
| "exec_insn lk Movzx_edi_cell m = Some (m\<lparr>rdi := ucast (mem m (cell_addr m))\<rparr>)"
| "exec_insn lk (Mov_rax_imm64 k) m = Some (m\<lparr>rax := k\<rparr>)"
| "exec_insn lk Call_rax m =
     (if rax m = putchar_addr lk then
        Some (m\<lparr>outp := outp m @ [ucast (rdi m)], rax := ucast (ucast (rdi m) :: u8)\<rparr>)
      else if rax m = getchar_addr lk then
        (case inp m of
           [] \<Rightarrow> Some (m\<lparr>rax := 0xFFFFFFFF\<rparr>)
         | b # bs \<Rightarrow> Some (m\<lparr>rax := ucast b, inp := bs\<rparr>))
      else None)"
| "exec_insn lk Mov_cell_al m =
     Some (m\<lparr>mem := (mem m)(cell_addr m := ucast (rax m))\<rparr>)"
| "exec_insn lk (Je d) m = (if zf m then jump d m else Some m)"
| "exec_insn lk (Jne d) m = (if zf m then Some m else jump d m)"
| "exec_insn lk Push_rbp m = Some (push (rbp m) m)"
| "exec_insn lk Mov_rbp_rsp m = Some (m\<lparr>rbp := rsp m\<rparr>)"
| "exec_insn lk Push_r12 m = Some (push (r12 m) m)"
| "exec_insn lk Push_r13 m = Some (push (r13 m) m)"
| "exec_insn lk Mov_r12_rdi m = Some (m\<lparr>r12 := rdi m\<rparr>)"
| "exec_insn lk Xor_r13d m = Some (m\<lparr>r13 := 0, zf := True\<rparr>)"
| "exec_insn lk Pop_r13 m =
     (case stack m of [] \<Rightarrow> None
      | v # vs \<Rightarrow> Some (m\<lparr>r13 := v, rsp := rsp m + 8, stack := vs\<rparr>))"
| "exec_insn lk Pop_r12 m =
     (case stack m of [] \<Rightarrow> None
      | v # vs \<Rightarrow> Some (m\<lparr>r12 := v, rsp := rsp m + 8, stack := vs\<rparr>))"
| "exec_insn lk Pop_rbp m =
     (case stack m of [] \<Rightarrow> None
      | v # vs \<Rightarrow> Some (m\<lparr>rbp := v, rsp := rsp m + 8, stack := vs\<rparr>))"
| "exec_insn lk Ret m = (if stack m = [] then Some (m\<lparr>halted := True\<rparr>) else None)"

definition step :: "linkage \<Rightarrow> u8 list \<Rightarrow> machine \<Rightarrow> machine option" where
  "step lk cd m =
     (case decode (drop (pc m) cd) of
        None \<Rightarrow> None
      | Some (ins, n) \<Rightarrow> exec_insn lk ins (m\<lparr>pc := pc m + n\<rparr>))"

text \<open>
  Running with fuel: \<open>Some m\<close> when the code has returned to its caller within the given
  number of instructions, \<open>None\<close> on a fault or when the fuel is used up.
\<close>

fun run :: "nat \<Rightarrow> linkage \<Rightarrow> u8 list \<Rightarrow> machine \<Rightarrow> machine option" where
  "run 0 lk cd m = (if halted m then Some m else None)"
| "run (Suc k) lk cd m =
     (if halted m then Some m
      else case step lk cd m of None \<Rightarrow> None | Some m' \<Rightarrow> run k lk cd m')"

text \<open>
  \<open>jit_entry(tape)\<close>: the call enters the buffer at offset 0 with the tape address in
  \<open>rdi\<close>; the tape comes zero-filled from \<open>mmap\<close>.
\<close>

definition entry_state :: "u64 \<Rightarrow> u8 list \<Rightarrow> machine" where
  "entry_state tape stdin =
     \<lparr>pc = 0, rax = 0, rdi = tape, rbp = 0, rsp = 0, r12 = 0, r13 = 0, zf = False,
      mem = (\<lambda>a. 0), stack = [], inp = stdin, outp = [], halted = False\<rparr>"

definition jit_entry :: "nat \<Rightarrow> linkage \<Rightarrow> u8 list \<Rightarrow> u64 \<Rightarrow> u8 list \<Rightarrow> machine option" where
  "jit_entry fuel lk cd tape stdin = run fuel lk cd (entry_state tape stdin)"

text \<open>Straight-line execution of a byte sequence that holds no jump.\<close>

fun is_jump :: "insn \<Rightarrow> bool" where
  "is_jump (Je d) = True"
| "is_jump (Jne d) = True"
| "is_jump i = False"

function exec_straight :: "linkage \<Rightarrow> u8 list \<Rightarrow> machine \<Rightarrow> machine option" where
  "exec_straight lk bs m =
     (if bs = [] then Some m
      else case decode bs of
             None \<Rightarrow> None
           | Some (i, n) \<Rightarrow>
               if is_jump i \<or> n = 0 then None
               else (case exec_insn lk i m of
                       None \<Rightarrow> None
                     | Some m' \<Rightarrow> exec_straight lk (drop n bs) m'))"
  by pat_completeness auto
termination
  by (relation "measure (\<lambda>(lk, bs, m). length bs)") auto

declare exec_straight.simps [simp del]

section \<open>The program\<close>

text \<open>
  \<open>main\<close> against an operating system that decides whether each allocation and each
  system call succeeds. What the program does to the outside is a list of events, in
  order; every \<open>fprintf(stderr, ...)\<close> is an event with the text printed.
\<close>

datatype region = Code_buffer | Tape_buffer

datatype perm = PROT_READ | PROT_WRITE | PROT_EXEC

datatype event =
    Stderr string                     \<comment> \<open>text written to the diagnostic stream\<close>
  | Perror string                     \<comment> \<open>\<open>perror\<close> with this prefix\<close>
  | Mmap region "perm list" bool      \<comment> \<open>protection asked for, and whether it succeeded\<close>
  | Mprotect region "perm list" bool
  | Munmap region
  | Code_written                      \<comment> \<open>the call of \<open>compile\<close>: all emission and patching\<close>
  | Verbose_listing nat "log_entry list"
  | Jit_call                          \<comment> \<open>control enters the code buffer\<close>
  | Stdout "u8 list"                  \<comment> \<open>the bytes the generated code has written\<close>

datatype outcome =
    Exit int
  | No_return   \<comment> \<open>the generated code faults or does not come back within the fuel\<close>
  | Undefined   \<comment> \<open>the C program has run into undefined behaviour\<close>

datatype file_result = File_contents string | Fopen_failed | Ftell_failed | Malloc_failed

record os_env =
  files :: "string \<Rightarrow> file_result"
  src_malloc_ok :: bool
  vlog_realloc_ok :: bool             \<comment> \<open>every \<open>realloc\<close> of the verbose log succeeds in this run\<close>
  mmap_code_ok :: bool
  mmap_tape_ok :: bool
  mprotect_ok :: bool
  tape_address :: u64
  stdin_bytes :: "u8 list"
  link :: linkage

definition usage :: "string \<Rightarrow> string" where
  "usage prog =
     ''Usage: '' @ prog @ '' [options] <file.bf>\<newline>'' @
     ''       '' @ prog @ '' [options] -e '' @ [CHR 0x27] @ ''<brainfuck code>'' @ [CHR 0x27] @
     ''\<newline>\<newline>Options:\<newline>'' @
     ''  -v    Verbose mode: show generated machine code disassembly\<newline>'' @
     ''  -e    Execute inline code instead of reading a file\<newline>''"

record options =
  inline_code :: "string option"
  filename :: "string option"
  opt_verbose :: bool

text \<open>The argument loop of \<open>main\<close>, over \<open>argv[1..]\<close>; \<open>Inl\<close> is an early \<open>return 1\<close>.\<close>

fun parse_args :: "string \<Rightarrow> string list \<Rightarrow> options \<Rightarrow> event list + options" where
  "parse_args prog [] opts = Inr opts"
| "parse_args prog (a # as) opts =
     (if a = ''-v'' then parse_args prog as (opts\<lparr>opt_verbose := True\<rparr>)
      else if a = ''-e'' then
        (case as of
           [] \<Rightarrow> Inl [Stderr ''error: -e requires an argument\<newline>'', Stderr (usage prog)]
         | b # bs \<Rightarrow> parse_args prog bs (opts\<lparr>inline_code := Some b\<rparr>))
      else if (case a of [] \<Rightarrow> False | c # cs \<Rightarrow> c = CHR ''-'') then
        Inl [Stderr (''error: unknown option '' @ [CHR 0x27] @ a @ [CHR 0x27] @ ''\<newline>''),
             Stderr (usage prog)]
      else parse_args prog as (opts\<lparr>filename := Some a\<rparr>))"

definition read_source :: "os_env \<Rightarrow> string \<Rightarrow> event list + string" where
  "read_source os path =
     (case files os path of
        Fopen_failed \<Rightarrow> Inl [Perror path]
      | Ftell_failed \<Rightarrow> Inl [Perror ''ftell'']
      | Malloc_failed \<Rightarrow> Inl [Perror ''malloc'']
      | File_contents s \<Rightarrow> Inr s)"

definition validate_msg :: "validate_error \<Rightarrow> string" where
  "validate_msg e =
     (case e of
        Unmatched_close i \<Rightarrow>
          ''error: unmatched '' @ [CHR 0x27] @ '']'' @ [CHR 0x27] @ '' at position '' @
          show_nat i @ ''\<newline>''
      | Unmatched_open i d \<Rightarrow>
          ''error: unmatched '' @ [CHR 0x27] @ ''['' @ [CHR 0x27] @ '' at position '' @
          show_nat i @ '' ('' @ show_int d @ '' unclosed)\<newline>''
      | Nesting_exceeds d \<Rightarrow>
          ''error: nesting depth '' @ show_int d @ '' exceeds maximum '' @
          show_nat MAX_NESTING @ ''\<newline>'')"

definition rw :: "perm list" where
  "rw = [PROT_READ, PROT_WRITE]"

definition rx :: "perm list" where
  "rx = [PROT_READ, PROT_EXEC]"

definition sandbox_hint :: "string \<Rightarrow> string" where
  "sandbox_hint call =
     ''hint: if on a system with restricted '' @ call @
     '', check SELinux / seccomp policy\<newline>''"

text \<open>
  The prefix passed to \<open>perror\<close> when the flip fails; the arrow between \<open>W\<close> and \<open>X\<close> is
  the three bytes of U+2192 in UTF-8.
\<close>

definition mprotect_text :: string where
  "mprotect_text = ''mprotect (W'' @ [CHR 0xE2, CHR 0x86, CHR 0x92] @ ''X)''"

text \<open>What follows a successful \<open>compile\<close>: the listing, the flip, the call, the cleanup.\<close>

definition finish :: "nat \<Rightarrow> os_env \<Rightarrow> jit_state \<Rightarrow> event list \<times> outcome" where
  "finish fuel os st =
     (let listing = (if verbose st then [Verbose_listing (length (code st)) (vlog st)] else [])
      in if \<not> mprotect_ok os then
           (listing @ [Mprotect Code_buffer rx False, Perror mprotect_text,
                       Stderr (sandbox_hint ''mprotect''),
                       Munmap Tape_buffer, Munmap Code_buffer], Exit 1)
         else
           (case jit_entry fuel (link os) (code st) (tape_address os) (stdin_bytes os) of
              None \<Rightarrow> (listing @ [Mprotect Code_buffer rx True, Jit_call], No_return)
            | Some m \<Rightarrow>
                (listing @ [Mprotect Code_buffer rx True, Jit_call, Stdout (outp m),
                            Munmap Tape_buffer, Munmap Code_buffer], Exit 0)))"

text \<open>
  From the validated source on: the two mappings, then \<open>compile\<close>. In verbose mode
  \<open>vlog_push\<close> allocates the log, first in \<open>emit_prologue\<close> and again each time the log is
  full; when a \<open>realloc\<close> fails it prints through \<open>perror\<close> and calls \<open>exit(1)\<close> inside
  \<open>compile\<close>, with the prologue written and both regions still mapped, as \<open>check_space\<close>
  does on overflow.
\<close>

definition build :: "nat \<Rightarrow> os_env \<Rightarrow> bool \<Rightarrow> string \<Rightarrow> event list \<times> outcome" where
  "build fuel os v src =
     (if \<not> mmap_code_ok os then
        ([Mmap Code_buffer rw False, Perror ''mmap (code buffer)'',
          Stderr (sandbox_hint ''mmap'')], Exit 1)
      else if \<not> mmap_tape_ok os then
        ([Mmap Code_buffer rw True, Mmap Tape_buffer rw False, Perror ''mmap (tape)'',
          Munmap Code_buffer], Exit 1)
      else
        (let maps = [Mmap Code_buffer rw True, Mmap Tape_buffer rw True, Code_written]
         in if v \<and> \<not> vlog_realloc_ok os then (maps @ [Perror ''realloc''], Exit 1)
            else case compile (link os) src (initial_state v) of
              Inl (Buffer_overflow used need) \<Rightarrow>
                (maps @ [Stderr (''error: code buffer overflow ('' @ show_nat used @
                           '' bytes used, need '' @ show_nat need @ '' more)\<newline>'')],
                 Exit 1)
            | Inl (Unmatched_close_compile i) \<Rightarrow>
                (maps @ [Stderr (''error: unmatched '' @ [CHR 0x27] @ '']'' @ [CHR 0x27] @
                           '' during compilation at position '' @ show_nat i @ ''\<newline>''),
                         Munmap Tape_buffer, Munmap Code_buffer], Exit 1)
            | Inl Fixups_out_of_bounds \<Rightarrow> (maps, Undefined)
            | Inr st \<Rightarrow>
                (let r = finish fuel os st in (maps @ fst r, snd r))))"

definition validate_and_build ::
  "nat \<Rightarrow> os_env \<Rightarrow> bool \<Rightarrow> string \<Rightarrow> event list \<times> outcome" where
  "validate_and_build fuel os v src =
     (case validate_brackets src of
        Inl e \<Rightarrow> ([Stderr (validate_msg e)], Exit 1)
      | Inr u \<Rightarrow> build fuel os v src)"

definition main :: "nat \<Rightarrow> os_env \<Rightarrow> string \<Rightarrow> string list \<Rightarrow> event list \<times> outcome" where
  "main fuel os prog args =
     (case parse_args prog args \<lparr>inline_code = None, filename = None, opt_verbose = False\<rparr> of
        Inl evs \<Rightarrow> (evs, Exit 1)
      | Inr opts \<Rightarrow>
          (case (inline_code opts, filename opts) of
             (None, None) \<Rightarrow> ([Stderr (usage prog)], Exit 1)
           | (Some s, Some f) \<Rightarrow>
               ([Stderr ''error: cannot use both -e and a filename\<newline>''], Exit 1)
           | (Some s, None) \<Rightarrow>
               if src_malloc_ok os then validate_and_build fuel os (opt_verbose opts) s
               else ([Perror ''malloc''], Exit 1)
           | (None, Some f) \<Rightarrow>
               (case read_source os f of
                  Inl evs \<Rightarrow> (evs, Exit 1)
                | Inr src \<Rightarrow> validate_and_build fuel os (opt_verbose opts) src)))"

section \<open>Auxiliary notions for the proofs\<close>

text \<open>The byte sequences of the encoders, as functions of their arguments.\<close>

definition enc_add_cell :: "int \<Rightarrow> u8 list" where
  "enc_add_cell n =
     (if n = 1 then [0x43, 0xfe, 0x04, 0x2c]
      else if n = - 1 then [0x43, 0xfe, 0x0c, 0x2c]
      else if n > 0 then [0x43, 0x80, 0x04, 0x2c, word_of_int n]
      else [0x43, 0x80, 0x2c, 0x2c, word_of_int (- n)])"

definition enc_move_ptr :: "int \<Rightarrow> u8 list" where
  "enc_move_ptr n =
     (if n = 1 then [0x49, 0xff, 0xc5]
      else if n = - 1 then [0x49, 0xff, 0xcd]
      else if n > 0 \<and> n \<le> 127 then [0x49, 0x83, 0xc5, word_of_int n]
      else if n < 0 \<and> n \<ge> - 127 then [0x49, 0x83, 0xed, word_of_int (- n)]
      else if n > 0 then [0x49, 0x81, 0xc5] @ u32_bytes (word_of_int n)
      else [0x49, 0x81, 0xed] @ u32_bytes (word_of_int (- n)))"

definition enc_putchar :: "linkage \<Rightarrow> u8 list" where
  "enc_putchar lk =
     [0x43, 0x0f, 0xb6, 0x3c, 0x2c, 0x48, 0xb8] @ u64_bytes (putchar_addr lk) @ [0xff, 0xd0]"

definition enc_getchar :: "linkage \<Rightarrow> u8 list" where
  "enc_getchar lk =
     [0x48, 0xb8] @ u64_bytes (getchar_addr lk) @ [0xff, 0xd0, 0x43, 0x88, 0x04, 0x2c]"

definition enc_open :: "u8 list" where
  "enc_open = cmp_cell_zero @ [0x0f, 0x84] @ u32_bytes 0"

definition enc_close :: "nat \<Rightarrow> nat \<Rightarrow> u8 list" where
  "enc_close open_fixup start =
     cmp_cell_zero @ [0x0f, 0x85] @ u32_bytes (back_disp open_fixup (start + 7))"

text \<open>An emitter either appends exactly these bytes or stops on the overflow check.\<close>

definition emits :: "compile_error + jit_state \<Rightarrow> jit_state \<Rightarrow> u8 list \<Rightarrow> bool" where
  "emits r st bs =
     (if length (code st) + length bs \<le> CODE_SIZE
      then (\<exists>st'. r = Inr st' \<and> code st' = code st @ bs \<and> verbose st' = verbose st)
      else (\<exists>u n. r = Inl (Buffer_overflow u n)))"


text \<open>
  The compile loop seen as a tokeniser followed by one emitter call per token; lemma
  \<open>compile_loop_run_ops\<close> shows that this is the loop of the source.
\<close>

datatype bf_op =
    Op_add_cell int | Op_move_ptr int | Op_putchar | Op_getchar | Op_open | Op_close nat

function ops :: "string \<Rightarrow> nat \<Rightarrow> bf_op list" where
  "ops [] i = []"
| "ops (c # cs) i =
     (if c = CHR ''+'' \<or> c = CHR ''-'' then
        (let r = scan_cell (c # cs) i 0;
             delta = ((snd (snd r) smod 256) + 256) smod 256
         in (if delta = 0 then []
             else [Op_add_cell (if delta \<le> 128 then delta else delta - 256)])
            @ ops (fst r) (fst (snd r)))
      else if c = CHR ''>'' \<or> c = CHR ''<'' then
        (let r = scan_ptr (c # cs) i 0;
             delta = snd (snd r)
         in (if delta = 0 then [] else [Op_move_ptr delta]) @ ops (fst r) (fst (snd r)))
      else if c = CHR ''.'' then Op_putchar # ops cs (Suc i)
      else if c = CHR '','' then Op_getchar # ops cs (Suc i)
      else if c = CHR ''['' then Op_open # ops cs (Suc i)
      else if c = CHR '']'' then Op_close i # ops cs (Suc i)
      else ops cs (Suc i))"
  by pat_completeness auto
termination
proof -
  have cell: "length (fst (scan_cell s i d)) \<le> length s" for s i d
    by (induction s arbitrary: i d) (auto intro: le_SucI)
  have ptr: "length (fst (scan_ptr s i d)) \<le> length s" for s i d
    by (induction s arbitrary: i d) (auto intro: le_SucI)
  show ?thesis
    by (relation "measure (\<lambda>(s, i). length s)") (auto simp: le_imp_less_Suc cell ptr)
qed

fun run_op ::
  "linkage \<Rightarrow> bf_op \<Rightarrow> nat list \<Rightarrow> jit_state \<Rightarrow> compile_error + (nat list \<times> jit_state)" where
  "run_op lk (Op_add_cell n) fx st = bind_err (emit_add_cell n st) (\<lambda>s. Inr (fx, s))"
| "run_op lk (Op_move_ptr n) fx st = bind_err (emit_move_ptr n st) (\<lambda>s. Inr (fx, s))"
| "run_op lk Op_putchar fx st = bind_err (emit_putchar lk st) (\<lambda>s. Inr (fx, s))"
| "run_op lk Op_getchar fx st = bind_err (emit_getchar lk st) (\<lambda>s. Inr (fx, s))"
| "run_op lk Op_open fx st =
     bind_err (emit_loop_open st) (\<lambda>(fixup, s).
       if length fx \<ge> MAX_NESTING then Inl Fixups_out_of_bounds else Inr (fixup # fx, s))"
| "run_op lk (Op_close i) fx st =
     (case fx of
        [] \<Rightarrow> Inl (Unmatched_close_compile i)
      | open_fixup # rest \<Rightarrow> bind_err (emit_loop_close open_fixup st) (\<lambda>s. Inr (rest, s)))"

fun run_ops ::
  "linkage \<Rightarrow> bf_op list \<Rightarrow> nat list \<Rightarrow> jit_state \<Rightarrow> compile_error + (nat list \<times> jit_state)"
  where
  "run_ops lk [] fx st = Inr (fx, st)"
| "run_ops lk (x # xs) fx st =
     bind_err (run_op lk x fx st) (\<lambda>(fx', st'). run_ops lk xs fx' st')"


text \<open>The net delta of a run, and the condition that a run ends where the text says.\<close>

definition run_delta :: "char \<Rightarrow> string \<Rightarrow> int" where
  "run_delta up r = sum_list (map (\<lambda>c. if c = up then 1 else - 1) r)"

definition ends_run :: "char set \<Rightarrow> string \<Rightarrow> bool" where
  "ends_run cs rest = (case rest of [] \<Rightarrow> True | c # _ \<Rightarrow> c \<notin> cs)"

definition example_link :: linkage where
  "example_link = \<lparr>putchar_addr = 0x401030, getchar_addr = 0x401040\<rparr>"


text \<open>A second set of addresses, as another process may see them, and the code of a result.\<close>

definition other_link :: linkage where
  "other_link = \<lparr>putchar_addr = 0x7f0000401030, getchar_addr = 0x7f0000401040\<rparr>"

definition code_of :: "compile_error + jit_state \<Rightarrow> u8 list option" where
  "code_of r = (case r of Inl e \<Rightarrow> None | Inr st \<Rightarrow> Some (code st))"


text \<open>Compiling a script and calling the result on a zeroed tape.\<close>

definition run_script ::
  "nat \<Rightarrow> linkage \<Rightarrow> bool \<Rightarrow> string \<Rightarrow> u64 \<Rightarrow> u8 list \<Rightarrow> machine option" where
  "run_script fuel lk v src tape stdin =
     (case compile lk src (initial_state v) of
        Inl e \<Rightarrow> None
      | Inr st \<Rightarrow> jit_entry fuel lk (code st) tape stdin)"

section \<open>Balanced scripts and nesting depth\<close>

text \<open>
  The notions the specification uses for the bracket validator, stated on the text alone:
  a script is balanced when no prefix closes more loops than it has opened and the whole
  text closes all of them; its nesting depth is the largest number of loops open at once.
  Lemma \<open>nonneg_from_prefixes\<close> relates the recursive form to the prefixes.
\<close>

definition bracket_weight :: "char \<Rightarrow> int" where
  "bracket_weight c = (if c = CHR ''['' then 1 else if c = CHR '']'' then - 1 else 0)"

definition depth_of :: "string \<Rightarrow> int" where
  "depth_of s = sum_list (map bracket_weight s)"

fun nonneg_from :: "int \<Rightarrow> string \<Rightarrow> bool" where
  "nonneg_from d [] = (0 \<le> d)"
| "nonneg_from d (c # cs) = (0 \<le> d \<and> nonneg_from (d + bracket_weight c) cs)"

fun max_from :: "int \<Rightarrow> string \<Rightarrow> int" where
  "max_from d [] = d"
| "max_from d (c # cs) = max d (max_from (d + bracket_weight c) cs)"

definition balanced :: "string \<Rightarrow> bool" where
  "balanced s = (nonneg_from 0 s \<and> depth_of s = 0)"

definition nesting_depth :: "string \<Rightarrow> int" where
  "nesting_depth s = max_from 0 s"


text \<open>An operating system where every call succeeds and no file exists.\<close>

definition example_os :: os_env where
  "example_os =
     \<lparr>files = (\<lambda>p. Fopen_failed), src_malloc_ok = True, vlog_realloc_ok = True,
      mmap_code_ok = True,
      mmap_tape_ok = True, mprotect_ok = True, tape_address = 0x7000, stdin_bytes = [],
      link = example_link\<rparr>"


section \<open>Auxiliary notions for the loop proofs\<close>

text \<open>
  Tokens that only append bytes, texts without brackets, and a relation that splits a
  text into bracket tokens and bracket-free stretches; lemma \<open>tokenizes_ops\<close> shows that
  the tokeniser of the compile loop is one such split.
\<close>

fun is_straight :: "bf_op \<Rightarrow> bool" where
  "is_straight Op_open = False"
| "is_straight (Op_close i) = False"
| "is_straight x = True"

fun straight_bytes :: "linkage \<Rightarrow> bf_op \<Rightarrow> u8 list" where
  "straight_bytes lk (Op_add_cell n) = enc_add_cell n"
| "straight_bytes lk (Op_move_ptr n) = enc_move_ptr n"
| "straight_bytes lk Op_putchar = enc_putchar lk"
| "straight_bytes lk Op_getchar = enc_getchar lk"
| "straight_bytes lk x = []"

definition no_brackets :: "string \<Rightarrow> bool" where
  "no_brackets w = (CHR ''['' \<notin> set w \<and> CHR '']'' \<notin> set w)"

inductive tokenizes :: "string \<Rightarrow> nat \<Rightarrow> bf_op list \<Rightarrow> bool" where
  tok_nil: "tokenizes [] j []"
| tok_skip: "no_brackets w \<Longrightarrow> \<forall>x\<in>set pre. is_straight x \<Longrightarrow>
     tokenizes rest (j + length w) os \<Longrightarrow> tokenizes (w @ rest) j (pre @ os)"
| tok_open: "tokenizes rest (Suc j) os \<Longrightarrow> tokenizes (CHR ''['' # rest) j (Op_open # os)"
| tok_close: "tokenizes rest (Suc j) os \<Longrightarrow> tokenizes (CHR '']'' # rest) j (Op_close j # os)"


text \<open>Pending fixups lie inside the buffer, and a position is untouched when no pending
  fixup covers it.\<close>

definition fixups_ok :: "nat list \<Rightarrow> jit_state \<Rightarrow> bool" where
  "fixups_ok fx st = (\<forall>f\<in>set fx. f + 4 \<le> length (code st))"

definition untouched :: "nat list \<Rightarrow> nat \<Rightarrow> bool" where
  "untouched fx k = (\<forall>f\<in>set fx. k < f \<or> f + 4 \<le> k)"


text \<open>The state at the end of the source, before the epilogue, and the state after the
  prologue.\<close>

definition loop_result ::
  "linkage \<Rightarrow> bool \<Rightarrow> string \<Rightarrow> compile_error + (nat list \<times> jit_state)" where
  "loop_result lk v src =
     bind_err (emit_prologue (initial_state v)) (\<lambda>s. compile_loop lk src 0 [] s)"


definition after_prologue :: "bool \<Rightarrow> jit_state" where
  "after_prologue v = vlog_push 0 14
     ''push rbp; mov rbp,rsp; push r12; push r13; mov r12,rdi; xor r13d,r13d''
     (initial_state v\<lparr>code := prologue\<rparr>)"


text \<open>Two processes agree on a token when they encode it alike, and two results are the
  same when both fail or both succeed with the same stack and the same code.\<close>

definition agree_on :: "linkage \<Rightarrow> linkage \<Rightarrow> bf_op \<Rightarrow> bool" where
  "agree_on lk1 lk2 x =
     ((x = Op_putchar \<longrightarrow> putchar_addr lk1 = putchar_addr lk2) \<and>
      (x = Op_getchar \<longrightarrow> getchar_addr lk1 = getchar_addr lk2))"

definition same_result ::
  "compile_error + (nat list \<times> jit_state) \<Rightarrow> compile_error + (nat list \<times> jit_state) \<Rightarrow> bool"
  where
  "same_result r1 r2 =
     (case r1 of
        Inl e1 \<Rightarrow> (case r2 of Inl e2 \<Rightarrow> True | Inr q \<Rightarrow> False)
      | Inr p \<Rightarrow> (case r2 of Inl e2 \<Rightarrow> False
                  | Inr q \<Rightarrow> fst p = fst q \<and> code (snd p) = code (snd q)))"


section \<open>Loops in the emitted code\<close>

text \<open>The eleven bytes of a loop-open block with its displacement filled in.\<close>

definition open_block :: "u32 \<Rightarrow> u8 list" where
  "open_block d = cmp_cell_zero @ [0x0f, 0x84] @ u32_bytes d"



text \<open>
  \<open>offset_at lk v src k\<close> is \<open>code_len\<close> when the compile loop stands at source position
  \<open>k\<close>: the length of the code after the prologue and the first \<open>k\<close> characters. A bracket
  ends every run, so at the position of a bracket the loop over the whole text is in that
  state (lemma \<open>ops_append_bracket\<close>).
\<close>

definition offset_at :: "linkage \<Rightarrow> bool \<Rightarrow> string \<Rightarrow> nat \<Rightarrow> nat" where
  "offset_at lk v src k =
     (case loop_result lk v (take k src) of
        Inl e \<Rightarrow> 0
      | Inr (fixups, st) \<Rightarrow> length (code st))"


text \<open>
  The \<open>]\<close> at position \<open>j\<close> matches the \<open>[\<close> at position \<open>k\<close> when the text strictly
  between them is balanced. \<open>jumps_exact\<close> reads the two blocks back from the finished
  code: each starts with the compare instruction, the \<open>je\<close> of the open block lands on the
  first byte after the close block, and the \<open>jne\<close> of the close block lands on the first
  byte of the open block; both displacements count from the end of the jump instruction,
  eleven bytes after the start of its block.
\<close>

definition matching :: "string \<Rightarrow> nat \<Rightarrow> nat \<Rightarrow> bool" where
  "matching src k j =
     (k < j \<and> j < length src \<and> src ! k = CHR ''['' \<and> src ! j = CHR '']'' \<and>
      balanced (take (j - Suc k) (drop (Suc k) src)))"

definition jumps_exact :: "linkage \<Rightarrow> bool \<Rightarrow> string \<Rightarrow> u8 list \<Rightarrow> nat \<Rightarrow> nat \<Rightarrow> bool" where
  "jumps_exact lk v src cd k j =
     (let a = offset_at lk v src k; b = offset_at lk v src j
      in decode (drop a cd) = Some (Cmp_cell 0, 5) \<and>
         (case decode (drop (a + 5) cd) of
            Some (Je fwd, n) \<Rightarrow> n = 6 \<and> int (a + 11) + sint fwd = int (b + 11)
          | _ \<Rightarrow> False) \<and>
         decode (drop b cd) = Some (Cmp_cell 0, 5) \<and>
         (case decode (drop (b + 5) cd) of
            Some (Jne back, n) \<Rightarrow> n = 6 \<and> int (b + 11) + sint back = int a
          | _ \<Rightarrow> False))"

section \<open>The protection of the code buffer along a run\<close>

text \<open>
  The discipline that the specification asks of the code buffer, as a monitor over the
  events of \<open>main\<close>. The buffer is unmapped, then mapped readable and writable, then
  written by \<open>compile\<close>, then flipped to readable and executable, then released. A step
  that the discipline forbids is \<open>None\<close>: a mapping that is not \<open>rw\<close>, a write outside the
  writable phases, a flip before the code is written or a second flip, a flip to anything
  but \<open>rx\<close>, a call before the flip.
\<close>

datatype phase = Unmapped | Mapped | Written | Executable | Released

fun wx_step :: "phase \<Rightarrow> event \<Rightarrow> phase option" where
  "wx_step ph (Mmap Code_buffer p ok) =
     (if ph = Unmapped \<and> p = rw then Some (if ok then Mapped else Unmapped) else None)"
| "wx_step ph (Mprotect Code_buffer p ok) =
     (if ph = Written \<and> p = rx then Some (if ok then Executable else Written) else None)"
| "wx_step ph (Munmap Code_buffer) =
     (if ph = Mapped \<or> ph = Written \<or> ph = Executable then Some Released else None)"
| "wx_step ph Code_written = (if ph = Mapped \<or> ph = Written then Some Written else None)"
| "wx_step ph Jit_call = (if ph = Executable then Some Executable else None)"
| "wx_step ph e = Some ph"

fun wx_run :: "phase \<Rightarrow> event list \<Rightarrow> phase option" where
  "wx_run ph [] = Some ph"
| "wx_run ph (e # es) = (case wx_step ph e of None \<Rightarrow> None | Some ph' \<Rightarrow> wx_run ph' es)"

text \<open>The protection of the code buffer in each phase, and as the events set it.\<close>

fun prot_of :: "phase \<Rightarrow> perm list" where
  "prot_of Mapped = rw"
| "prot_of Written = rw"
| "prot_of Executable = rx"
| "prot_of ph = []"

fun prot_step :: "perm list \<Rightarrow> event \<Rightarrow> perm list" where
  "prot_step p (Mmap Code_buffer q True) = q"
| "prot_step p (Mprotect Code_buffer q True) = q"
| "prot_step p (Munmap Code_buffer) = []"
| "prot_step p e = p"

definition code_prot :: "event list \<Rightarrow> perm list" where
  "code_prot t = foldl prot_step [] t"

definition writable_and_executable :: "perm list \<Rightarrow> bool" where
  "writable_and_executable p = (PROT_WRITE \<in> set p \<and> PROT_EXEC \<in> set p)"

fun is_flip :: "event \<Rightarrow> bool" where
  "is_flip (Mprotect Code_buffer p True) = True"
| "is_flip e = False"

fun is_message :: "event \<Rightarrow> bool" where
  "is_message (Stderr s) = True"
| "is_message (Perror s) = True"
| "is_message e = False"

section \<open>The expansion of a run, one instruction for each character\<close>

text \<open>
  What the specification compares the collapsed instruction with: the bytes that the
  encoders produce when each character of a run is encoded by itself, \<open>inc\<close> or \<open>dec\<close>
  of the cell for \<open>+\<close> and \<open>-\<close>, \<open>inc\<close> or \<open>dec\<close> of \<open>r13\<close> for \<open>>\<close> and \<open><\<close>. The example
  machine is the entry state with the tape address loaded into \<open>r12\<close>, as the prologue
  leaves it.
\<close>

definition naive_cell :: "string \<Rightarrow> u8 list" where
  "naive_cell r = concat (map (\<lambda>c. enc_add_cell (if c = CHR ''+'' then 1 else - 1)) r)"

definition example_machine :: machine where
  "example_machine = (entry_state 0x7000 [])\<lparr>r12 := 0x7000\<rparr>"

definition naive_ptr :: "string \<Rightarrow> u8 list" where
  "naive_ptr r = concat (map (\<lambda>c. enc_move_ptr (if c = CHR ''>'' then 1 else - 1)) r)"

section \<open>Properties of the emitters and of the compile loop\<close>

lemma bind_err_simps [simp]:
  "bind_err (Inr x) f = f x" "bind_err (Inl e) f = Inl e"
  by (simp_all add: bind_err_def)

lemma length_u32_bytes [simp]: "length (u32_bytes v) = 4"
  by (simp add: u32_bytes_def)

lemma length_u64_bytes [simp]: "length (u64_bytes v) = 8"
  by (simp add: u64_bytes_def)

lemma vlog_push_code [simp]: "code (vlog_push a b c st) = code st"
  and vlog_push_verbose [simp]: "verbose (vlog_push a b c st) = verbose st"
  by (simp_all add: vlog_push_def)

lemma emit_bytes_emits: "emits (emit_bytes bs st) st bs"
  by (simp add: emits_def emit_bytes_def check_space_def)

lemma emit_byte_emits: "emits (emit_byte b st) st [b]"
  by (simp add: emits_def emit_byte_def check_space_def)

lemma emit_u32_emits: "emits (emit_u32 v st) st (u32_bytes v)"
  by (simp add: emits_def emit_u32_def check_space_def)

lemma emit_u64_emits: "emits (emit_u64 v st) st (u64_bytes v)"
  by (simp add: emits_def emit_u64_def check_space_def)


lemma bind_err_if:
  "bind_err (if c then Inl e else Inr x) f = (if c then Inl e else f x)"
  by simp

lemmas emit_defs = emits_def emit_bytes_def emit_byte_def emit_u32_def emit_u64_def
  check_space_def Let_def bind_err_if

lemma emit_add_cell_emits: "emits (emit_add_cell n st) st (enc_add_cell n)"
  by (simp add: emit_add_cell_def enc_add_cell_def emit_defs)

lemma emit_move_ptr_emits: "emits (emit_move_ptr n st) st (enc_move_ptr n)"
  by (simp add: emit_move_ptr_def enc_move_ptr_def emit_defs)

lemma emit_putchar_emits: "emits (emit_putchar lk st) st (enc_putchar lk)"
  by (simp add: emit_putchar_def enc_putchar_def emit_defs)

lemma emit_getchar_emits: "emits (emit_getchar lk st) st (enc_getchar lk)"
  by (simp add: emit_getchar_def enc_getchar_def emit_defs)

lemma emit_prologue_emits: "emits (emit_prologue st) st prologue"
  by (simp add: emit_prologue_def emit_defs)

lemma emit_epilogue_emits: "emits (emit_epilogue st) st epilogue"
  by (simp add: emit_epilogue_def emit_defs)

lemma emit_loop_open_cases:
  "if length (code st) + 11 \<le> CODE_SIZE
   then \<exists>st'. emit_loop_open st = Inr (length (code st) + 7, st') \<and>
          code st' = code st @ enc_open \<and> verbose st' = verbose st
   else \<exists>u n. emit_loop_open st = Inl (Buffer_overflow u n)"
  by (simp add: emit_loop_open_def enc_open_def emit_cmp_cell_zero_def cmp_cell_zero_def emit_defs)

lemma emit_loop_close_cases:
  "if length (code st) + 11 \<le> CODE_SIZE
   then \<exists>st'. emit_loop_close f st = Inr st' \<and>
          code st' = store_bytes (code st @ enc_close f (length (code st))) f
                       (u32_bytes (fwd_disp f (length (code st) + 11))) \<and>
          verbose st' = verbose st
   else \<exists>u n. emit_loop_close f st = Inl (Buffer_overflow u n)"
proof -
  have seven: "Suc (Suc (Suc (Suc (Suc (Suc (Suc k)))))) = k + 7" for k
    by simp
  show ?thesis
    by (simp add: emit_loop_close_def enc_close_def emit_cmp_cell_zero_def cmp_cell_zero_def
        emit_defs patch_u32_def seven)
qed

declare compile_loop.simps [simp del] ops.simps [simp del]

lemma bind_err_assoc: "bind_err (bind_err m f) g = bind_err m (\<lambda>x. bind_err (f x) g)"
  by (cases m) simp_all

lemma run_ops_append:
  "run_ops lk (xs @ ys) fx st =
     bind_err (run_ops lk xs fx st) (\<lambda>(fx', st'). run_ops lk ys fx' st')"
proof (induction xs arbitrary: fx st)
  case Nil
  show ?case by simp
next
  case (Cons x xs)
  show ?case
    by (cases "run_op lk x fx st") (auto simp: Cons.IH)
qed

lemma compile_loop_run_ops: "compile_loop lk s i fx st = run_ops lk (ops s i) fx st"
proof (induction lk s i fx st rule: compile_loop.induct)
  case (1 lk i fixups st)
  show ?case by (simp add: compile_loop.simps ops.simps)
next
  case (2 lk c cs i fixups st)
  consider (cell) "c = CHR ''+'' \<or> c = CHR ''-''"
    | (ptr) "c = CHR ''>'' \<or> c = CHR ''<''"
    | (put) "c = CHR ''.''" | (get) "c = CHR '',''"
    | (opn) "c = CHR ''[''" | (cls) "c = CHR '']''"
    | (other) "c \<notin> {CHR ''+'', CHR ''-'', CHR ''>'', CHR ''<'', CHR ''.'', CHR '','', CHR ''['', CHR '']''}"
    by auto
  then show ?case
  proof cases
    case cell
    define r where "r = scan_cell (c # cs) i 0"
    define delta where "delta = ((snd (snd r) smod 256) + 256) smod 256"
    show ?thesis
    proof (cases "delta = 0")
      case True
      with cell 2(1)[OF cell r_def delta_def True] show ?thesis
        by (subst compile_loop.simps, subst ops.simps)
           (simp add: Let_def r_def[symmetric] delta_def[symmetric] del: scan_cell.simps scan_ptr.simps)
    next
      case False
      have "compile_loop lk (fst r) (fst (snd r)) fixups =
            run_ops lk (ops (fst r) (fst (snd r))) fixups"
        by (rule ext) (rule 2(2)[OF cell r_def delta_def False])
      with cell False show ?thesis
        by (subst compile_loop.simps, subst ops.simps)
           (simp add: Let_def r_def[symmetric] delta_def[symmetric] bind_err_assoc del: scan_cell.simps scan_ptr.simps)
    qed
  next
    case ptr
    then have nc: "\<not> (c = CHR ''+'' \<or> c = CHR ''-'')" by auto
    define r where "r = scan_ptr (c # cs) i 0"
    define delta where "delta = snd (snd r)"
    show ?thesis
    proof (cases "delta = 0")
      case True
      with ptr nc 2(3)[OF nc ptr r_def delta_def True] show ?thesis
        by (subst compile_loop.simps, subst ops.simps)
           (simp add: Let_def r_def[symmetric] delta_def[symmetric] del: scan_cell.simps scan_ptr.simps)
    next
      case False
      have "compile_loop lk (fst r) (fst (snd r)) fixups =
            run_ops lk (ops (fst r) (fst (snd r))) fixups"
        by (rule ext) (rule 2(4)[OF nc ptr r_def delta_def False])
      with ptr nc False show ?thesis
        by (subst compile_loop.simps, subst ops.simps)
           (simp add: Let_def r_def[symmetric] delta_def[symmetric] bind_err_assoc del: scan_cell.simps scan_ptr.simps)
    qed
  next
    case put
    then have "compile_loop lk cs (Suc i) fixups = run_ops lk (ops cs (Suc i)) fixups"
      by (intro ext 2(5)) auto
    with put show ?thesis
      by (subst compile_loop.simps, subst ops.simps) (simp add: bind_err_assoc)
  next
    case get
    then have "compile_loop lk cs (Suc i) fixups = run_ops lk (ops cs (Suc i)) fixups"
      by (intro ext 2(6)) auto
    with get show ?thesis
      by (subst compile_loop.simps, subst ops.simps) (simp add: bind_err_assoc)
  next
    case opn
    have ih: "compile_loop lk cs (Suc i) (f # fixups) s =
              run_ops lk (ops cs (Suc i)) (f # fixups) s"
      if "\<not> MAX_NESTING \<le> length fixups" for f s
      by (rule 2(7)) (use opn that in auto)
    show ?thesis
    proof (cases "MAX_NESTING \<le> length fixups")
      case True
      with opn show ?thesis
        by (subst compile_loop.simps, subst ops.simps) (simp add: bind_err_assoc split_def)
    next
      case False
      with opn ih show ?thesis
        by (subst compile_loop.simps, subst ops.simps) (simp add: bind_err_assoc split_def)
    qed
  next
    case cls
    show ?thesis
    proof (cases fixups)
      case Nil
      with cls show ?thesis
        by (subst compile_loop.simps, subst ops.simps) simp
    next
      case (Cons f rest)
      with cls have "compile_loop lk cs (Suc i) rest = run_ops lk (ops cs (Suc i)) rest"
        by (intro ext 2(8)) auto
      with cls Cons show ?thesis
        by (subst compile_loop.simps, subst ops.simps) (simp add: bind_err_assoc)
    qed
  next
    case other
    with 2(9) show ?thesis
      by (subst compile_loop.simps, subst ops.simps) simp
  qed
qed

lemma smod_pos: "0 \<le> a \<Longrightarrow> a smod 256 = a mod (256::int)"
  using smod_mod_positive[of a 256] by simp

lemma c_norm: "((d smod 256) + 256) smod 256 = d mod (256::int)"
proof (cases "0 \<le> d")
  case True
  have nn: "0 \<le> d mod 256" by simp
  have "(d mod 256 + 256) smod 256 = (d mod 256 + 256) mod 256"
    using nn by (intro smod_pos) linarith
  with True show ?thesis by (simp add: smod_pos)
next
  case False
  define y where "y = (- d) mod 256"
  have y: "0 \<le> y" "y < 256"
    by (simp_all add: y_def)
  have "(- d) smod 256 = y"
    unfolding y_def using False by (intro smod_pos) linarith
  then have a: "d smod 256 = - y"
    using minus_smod_eq[of "- d" 256] by simp
  have "(256 - y) smod 256 = (256 - y) mod 256"
    using y by (intro smod_pos) linarith
  also have "256 - y = - y + 256"
    by simp
  also have "(- y + 256) mod 256 = (- y) mod 256"
    by (rule mod_add_self2)
  also have "\<dots> = d mod 256"
    unfolding y_def by (simp add: mod_minus_eq)
  finally show ?thesis
    using a by (simp add: algebra_simps)
qed

lemma scan_cell_run:
  "set r \<subseteq> {CHR ''+'', CHR ''-''} \<Longrightarrow> ends_run {CHR ''+'', CHR ''-''} rest \<Longrightarrow>
   scan_cell (r @ rest) i d = (rest, i + length r, d + run_delta (CHR ''+'') r)"
proof (induction r arbitrary: i d)
  case Nil
  then show ?case by (cases rest) (auto simp: run_delta_def ends_run_def)
next
  case (Cons c r)
  then show ?case by (auto simp: run_delta_def)
qed

lemma scan_ptr_run:
  "set r \<subseteq> {CHR ''>'', CHR ''<''} \<Longrightarrow> ends_run {CHR ''>'', CHR ''<''} rest \<Longrightarrow>
   scan_ptr (r @ rest) i d = (rest, i + length r, d + run_delta (CHR ''>'') r)"
proof (induction r arbitrary: i d)
  case Nil
  then show ?case by (cases rest) (auto simp: run_delta_def ends_run_def)
next
  case (Cons c r)
  then show ?case by (auto simp: run_delta_def)
qed

lemma compile_loop_cell_run:
  assumes "r \<noteq> []" "set r \<subseteq> {CHR ''+'', CHR ''-''}" "ends_run {CHR ''+'', CHR ''-''} rest"
  shows "compile_loop lk (r @ rest) i fx st =
    (let delta = run_delta (CHR ''+'') r mod 256
     in if delta = 0 then compile_loop lk rest (i + length r) fx st
        else bind_err (emit_add_cell (if delta \<le> 128 then delta else delta - 256) st)
               (\<lambda>s. compile_loop lk rest (i + length r) fx s))"
proof -
  from assms(1) obtain c cs where r: "r = c # cs" by (cases r) auto
  with assms(2) have c: "c = CHR ''+'' \<or> c = CHR ''-''" by auto
  have sc: "scan_cell (c # cs @ rest) i 0 = (rest, i + length r, run_delta (CHR ''+'') r)"
    using scan_cell_run[OF assms(2,3), of i 0] r by simp
  show ?thesis
    unfolding r append_Cons
    by (subst compile_loop.simps) (use c in \<open>simp add: sc Let_def c_norm r[symmetric] del: scan_cell.simps\<close>)
qed

lemma compile_loop_ptr_run:
  assumes "r \<noteq> []" "set r \<subseteq> {CHR ''>'', CHR ''<''}" "ends_run {CHR ''>'', CHR ''<''} rest"
  shows "compile_loop lk (r @ rest) i fx st =
    (let delta = run_delta (CHR ''>'') r
     in if delta = 0 then compile_loop lk rest (i + length r) fx st
        else bind_err (emit_move_ptr delta st)
               (\<lambda>s. compile_loop lk rest (i + length r) fx s))"
proof -
  from assms(1) obtain c cs where r: "r = c # cs" by (cases r) auto
  with assms(2) have c: "c = CHR ''>'' \<or> c = CHR ''<''" by auto
  then have nc: "\<not> (c = CHR ''+'' \<or> c = CHR ''-'')" by auto
  have sc: "scan_ptr (c # cs @ rest) i 0 = (rest, i + length r, run_delta (CHR ''>'') r)"
    using scan_ptr_run[OF assms(2,3), of i 0] r by simp
  show ?thesis
    unfolding r append_Cons
    by (subst compile_loop.simps) (use c nc in \<open>simp add: sc Let_def r[symmetric] del: scan_ptr.simps\<close>)
qed


lemma run_delta_replicate: "run_delta c (replicate n c) = int n"
  by (induction n) (simp_all add: run_delta_def)

lemma run_more: "run n lk cd m = Some m' \<Longrightarrow> run (n + k) lk cd m = Some m'"
proof (induction n arbitrary: m)
  case 0
  then show ?case by (cases k) (auto split: if_splits)
next
  case (Suc n)
  then show ?case by (auto split: if_splits option.splits)
qed

lemma compile_loop_Nil [simp]: "compile_loop lk [] i fx = (\<lambda>s. Inr (fx, s))"
  by (rule ext) (simp add: compile_loop.simps)

lemma compile_130:
  "\<exists>st. compile lk (replicate 130 (CHR ''+'')) (initial_state v) = Inr st \<and>
     code st = prologue @ [0x43, 0x80, 0x2c, 0x2c, 126] @ epilogue"
proof -
  have "compile_loop lk (replicate 130 (CHR ''+'') @ []) 0 [] s =
        bind_err (emit_add_cell (- 126) s) (\<lambda>s'. Inr ([], s'))" for s
    by (subst compile_loop_cell_run)
       (simp_all add: ends_run_def run_delta_replicate)
  then show ?thesis
    by (simp add: compile_def emit_prologue_def emit_epilogue_def emit_add_cell_def emit_defs
        initial_state_def prologue_def epilogue_def CODE_SIZE_def)
qed

lemma run_130:
  "\<exists>m. run 11 lk (prologue @ [0x43, 0x80, 0x2c, 0x2c, 126] @ epilogue) (entry_state tape stdin) = Some m \<and>
     mem m = (\<lambda>a. 0)(tape := 130) \<and> outp m = []"
proof -
  have eleven: "(11::nat) = Suc (Suc (Suc (Suc (Suc (Suc (Suc (Suc (Suc (Suc (Suc 0))))))))))"
    by simp
  have neg: "(- 126 :: u8) = 130"
    by simp
  show ?thesis
    unfolding eleven
    by (simp add: neg step_def decode_def starts_def prologue_def epilogue_def
      entry_state_def push_def set_cell_def cell_addr_def)
qed



subsection \<open>The validator\<close>

lemma depth_of_simps [simp]:
  "depth_of [] = 0" "depth_of (c # cs) = bracket_weight c + depth_of cs"
  "depth_of (a @ b) = depth_of a + depth_of b"
  by (simp_all add: depth_of_def)

lemma nonneg_from_start: "nonneg_from d s \<Longrightarrow> 0 \<le> d"
  by (cases s) simp_all

lemma nonneg_from_append:
  "nonneg_from d (a @ b) \<longleftrightarrow> nonneg_from d a \<and> nonneg_from (d + depth_of a) b"
proof (induction a arbitrary: d)
  case Nil
  show ?case using nonneg_from_start[of d b] by auto
next
  case (Cons c a)
  show ?case by (simp add: Cons.IH add.assoc)
qed

lemma nonneg_from_end: "nonneg_from d s \<Longrightarrow> 0 \<le> d + depth_of s"
proof (induction s arbitrary: d)
  case Nil
  then show ?case by simp
next
  case (Cons c s)
  then show ?case using Cons.IH[of "d + bracket_weight c"] by (simp add: add.assoc)
qed

lemma all_le_Suc_split: "(\<forall>n\<le>Suc k. P n) \<longleftrightarrow> P 0 \<and> (\<forall>n\<le>k. P (Suc n))"
proof
  assume "\<forall>n\<le>Suc k. P n"
  then show "P 0 \<and> (\<forall>n\<le>k. P (Suc n))" by simp
next
  assume a: "P 0 \<and> (\<forall>n\<le>k. P (Suc n))"
  show "\<forall>n\<le>Suc k. P n"
  proof (intro allI impI)
    fix n assume "n \<le> Suc k"
    with a show "P n" by (cases n) simp_all
  qed
qed

lemma nonneg_from_prefixes:
  "nonneg_from d s \<longleftrightarrow> (\<forall>n\<le>length s. 0 \<le> d + depth_of (take n s))"
proof (induction s arbitrary: d)
  case Nil
  show ?case by simp
next
  case (Cons c cs)
  show ?case
    by (simp add: Cons.IH add.assoc all_le_Suc_split)
qed

lemma max_from_ge: "d \<le> max_from d s"
  by (cases s) simp_all

lemma max_from_append:
  "max_from d (a @ b) = max (max_from d a) (max_from (d + depth_of a) b)"
proof (induction a arbitrary: d)
  case Nil
  show ?case using max_from_ge[of d b] by simp
next
  case (Cons c a)
  show ?case by (simp add: Cons.IH add.assoc max.assoc)
qed

text \<open>The validator loop on a prefix and the rest.\<close>

lemma validate_loop_append:
  "validate_loop (a @ b) i d m f =
     (case validate_loop a i d m f of
        Inl e \<Rightarrow> Inl e
      | Inr (d', m', f') \<Rightarrow> validate_loop b (i + length a) d' m' f')"
  by (induction a arbitrary: i d m f) (simp_all split: sum.splits prod.splits)

lemma validate_loop_ok:
  "nonneg_from d s \<Longrightarrow> d \<le> m \<Longrightarrow>
   \<exists>f'. validate_loop s i d m f = Inr (d + depth_of s, max m (max_from d s), f')"
proof (induction s arbitrary: i d m f)
  case Nil
  then show ?case by simp
next
  case (Cons c cs)
  from Cons.prems have d: "0 \<le> d" and rest: "nonneg_from (d + bracket_weight c) cs"
    by simp_all
  consider (opn) "c = CHR ''[''" | (cls) "c = CHR '']''" | (other) "c \<noteq> CHR ''[''" "c \<noteq> CHR '']''"
    by auto
  then show ?case
  proof cases
    case opn
    then have w: "bracket_weight c = 1" by (simp add: bracket_weight_def)
    let ?m = "if d + 1 > m then d + 1 else m"
    have "d + 1 \<le> ?m" by simp
    from Cons.IH[OF rest[unfolded w] this]
    obtain f' where "validate_loop cs (Suc i) (d + 1) ?m (if d = 0 then i else f) =
        Inr (d + 1 + depth_of cs, max ?m (max_from (d + 1) cs), f')"
      by blast
    moreover have "max ?m (max_from (d + 1) cs) = max m (max d (max_from (d + 1) cs))"
      using max_from_ge[of "d + 1" cs] Cons.prems(2) by auto
    ultimately show ?thesis
      using opn w by (auto simp: add.assoc)
  next
    case cls
    then have w: "bracket_weight c = - 1" by (simp add: bracket_weight_def)
    from rest w have "0 \<le> d - 1" using nonneg_from_start[of "d - 1" cs] by simp
    then have d0: "d \<noteq> 0" by simp
    have "d - 1 \<le> m" using Cons.prems(2) by simp
    from Cons.IH[OF _ this, of "Suc i" f] rest w
    obtain f' where "validate_loop cs (Suc i) (d - 1) m f =
        Inr (d - 1 + depth_of cs, max m (max_from (d - 1) cs), f')"
      by auto
    moreover have "max m (max_from (d - 1) cs) = max m (max d (max_from (d - 1) cs))"
      using Cons.prems(2) by auto
    ultimately show ?thesis
      using cls w d0 by auto
  next
    case other
    then have w: "bracket_weight c = 0" by (simp add: bracket_weight_def)
    from Cons.IH[OF _ Cons.prems(2), of "Suc i" f] rest w
    obtain f' where "validate_loop cs (Suc i) d m f =
        Inr (d + depth_of cs, max m (max_from d cs), f')"
      by auto
    moreover have "max m (max_from d cs) = max m (max d (max_from d cs))"
      using Cons.prems(2) by auto
    ultimately show ?thesis
      using other w by auto
  qed
qed

lemma validate_loop_nonneg:
  "validate_loop s i d m f = Inr r \<Longrightarrow> 0 \<le> d \<Longrightarrow> nonneg_from d s"
proof (induction s arbitrary: i d m f)
  case Nil
  then show ?case by simp
next
  case (Cons c cs)
  then show ?case
    by (auto simp: bracket_weight_def split: if_splits)
qed

text \<open>While the depth stays at 1 or more, \<open>first_unmatched\<close> is not touched.\<close>

lemma validate_loop_keeps_first:
  "nonneg_from (d - 1) s \<Longrightarrow> d \<le> m \<Longrightarrow>
   validate_loop s i d m f = Inr (d + depth_of s, max m (max_from d s), f)"
proof (induction s arbitrary: i d m)
  case Nil
  then show ?case by simp
next
  case (Cons c cs)
  from Cons.prems have d: "1 \<le> d" and rest: "nonneg_from (d - 1 + bracket_weight c) cs"
    by simp_all
  consider (opn) "c = CHR ''[''" | (cls) "c = CHR '']''" | (other) "c \<noteq> CHR ''[''" "c \<noteq> CHR '']''"
    by auto
  then show ?case
  proof cases
    case opn
    then have w: "bracket_weight c = 1" by (simp add: bracket_weight_def)
    let ?m = "if d + 1 > m then d + 1 else m"
    have le: "d + 1 \<le> ?m" by simp
    from rest w have "nonneg_from (d + 1 - 1) cs" by simp
    from Cons.IH[OF this le, of "Suc i"]
    have "validate_loop cs (Suc i) (d + 1) ?m f =
        Inr (d + 1 + depth_of cs, max ?m (max_from (d + 1) cs), f)" .
    moreover have "max ?m (max_from (d + 1) cs) = max m (max d (max_from (d + 1) cs))"
      using max_from_ge[of "d + 1" cs] Cons.prems(2) by auto
    ultimately show ?thesis
      using opn w d by (auto simp: add.assoc)
  next
    case cls
    then have w: "bracket_weight c = - 1" by (simp add: bracket_weight_def)
    from rest w have r: "nonneg_from (d - 1 - 1) cs" by simp
    have "d - 1 \<le> m" using Cons.prems(2) by simp
    from Cons.IH[OF r this, of "Suc i"]
    have "validate_loop cs (Suc i) (d - 1) m f =
        Inr (d - 1 + depth_of cs, max m (max_from (d - 1) cs), f)" .
    moreover have "max m (max_from (d - 1) cs) = max m (max d (max_from (d - 1) cs))"
      using Cons.prems(2) by auto
    ultimately show ?thesis
      using cls w d by auto
  next
    case other
    then have w: "bracket_weight c = 0" by (simp add: bracket_weight_def)
    from rest w have r: "nonneg_from (d - 1) cs" by simp
    from Cons.IH[OF r Cons.prems(2), of "Suc i"]
    have "validate_loop cs (Suc i) d m f =
        Inr (d + depth_of cs, max m (max_from d cs), f)" .
    moreover have "max m (max_from d cs) = max m (max d (max_from d cs))"
      using Cons.prems(2) by auto
    ultimately show ?thesis
      using other w by auto
  qed
qed



lemma depth_of_replicate_open [simp]: "depth_of (replicate n (CHR ''['')) = int n"
  by (induction n) (simp_all add: bracket_weight_def)

lemma depth_of_replicate_close [simp]: "depth_of (replicate n (CHR '']'')) = - int n"
  by (induction n) (simp_all add: bracket_weight_def)

lemma nonneg_from_replicate_open: "0 \<le> d \<Longrightarrow> nonneg_from d (replicate n (CHR ''[''))"
  by (induction n arbitrary: d) (simp_all add: bracket_weight_def)

lemma nonneg_from_replicate_close: "int n \<le> d \<Longrightarrow> nonneg_from d (replicate n (CHR '']''))"
  by (induction n arbitrary: d) (simp_all add: bracket_weight_def)

lemma max_from_replicate_open: "max_from d (replicate n (CHR ''['')) = d + int n"
  by (induction n arbitrary: d) (simp_all add: bracket_weight_def)

lemma max_from_replicate_close: "max_from d (replicate n (CHR '']'')) = d"
  by (induction n arbitrary: d) (simp_all add: bracket_weight_def)

lemma balanced_nest: "balanced (replicate n (CHR ''['') @ replicate n (CHR '']''))"
  by (simp add: balanced_def nonneg_from_append nonneg_from_replicate_open
      nonneg_from_replicate_close)

lemma nesting_depth_nest:
  "nesting_depth (replicate n (CHR ''['') @ replicate n (CHR '']'')) = int n"
  by (simp add: nesting_depth_def max_from_append max_from_replicate_open
      max_from_replicate_close)

lemma validate_balanced:
  assumes "balanced s"
  shows "\<exists>f. validate_loop s i 0 0 f0 = Inr (0, nesting_depth s, f)"
proof -
  from assms have nn: "nonneg_from 0 s" and z: "depth_of s = 0"
    by (simp_all add: balanced_def)
  from validate_loop_ok[OF nn, of 0 i f0] obtain f where
    "validate_loop s i 0 0 f0 = Inr (0 + depth_of s, max 0 (max_from 0 s), f)"
    by auto
  moreover have "max 0 (max_from 0 s) = max_from 0 s"
    using max_from_ge[of 0 s] by simp
  ultimately show ?thesis
    using z by (auto simp: nesting_depth_def)
qed

lemma validate_accepts:
  assumes "balanced s" and "nesting_depth s \<le> 256"
  shows "validate_brackets s = Inr ()"
  using validate_balanced[OF assms(1), of 0 0] assms(2)
  by (auto simp: validate_brackets_def MAX_NESTING_def)

lemma validate_unmatched_close:
  assumes "balanced a"
  shows "validate_brackets (a @ CHR '']'' # b) = Inl (Unmatched_close (length a))"
  using validate_balanced[OF assms, of 0 0]
  by (auto simp: validate_brackets_def validate_loop_append)

lemma validate_unmatched_open:
  assumes "balanced a" and "balanced b"
  shows "validate_brackets (a @ CHR ''['' # b) = Inl (Unmatched_open (length a) 1)"
proof -
  obtain f where a: "validate_loop a 0 0 0 0 = Inr (0, nesting_depth a, f)"
    using validate_balanced[OF assms(1)] by blast
  let ?m = "if 0 + 1 > nesting_depth a then 0 + 1 else nesting_depth a"
  from assms(2) have nn: "nonneg_from (1 - 1) b" and z: "depth_of b = 0"
    by (simp_all add: balanced_def)
  have "1 \<le> ?m" by simp
  from validate_loop_keeps_first[OF nn this, of "Suc (length a)" "length a"] z
  have "validate_loop b (Suc (length a)) 1 ?m (length a) =
          Inr (1, max ?m (max_from 1 b), length a)"
    by simp
  with a show ?thesis
    by (simp add: validate_brackets_def validate_loop_append)
qed

lemma validate_rejects_deep:
  assumes "257 \<le> nesting_depth s"
  shows "\<exists>e. validate_brackets s = Inl e"
proof (cases "validate_loop s 0 0 0 0")
  case (Inl e)
  then show ?thesis by (simp add: validate_brackets_def)
next
  case (Inr r)
  then have nn: "nonneg_from 0 s"
    by (rule validate_loop_nonneg) simp
  from validate_loop_ok[OF nn, of 0 0 0] Inr
  have r: "r = (depth_of s, max 0 (max_from 0 s), snd (snd r))"
    by auto
  have "256 < max 0 (max_from 0 s)"
    using assms by (simp add: nesting_depth_def)
  with Inr r show ?thesis
    by (cases r) (auto simp: validate_brackets_def MAX_NESTING_def)
qed


subsection \<open>The tokeniser\<close>

lemma scan_cell_split:
  "\<exists>r. s = r @ fst (scan_cell s j k) \<and> set r \<subseteq> {CHR ''+'', CHR ''-''} \<and>
       fst (snd (scan_cell s j k)) = j + length r \<and>
       snd (snd (scan_cell s j k)) = k + run_delta (CHR ''+'') r \<and>
       ends_run {CHR ''+'', CHR ''-''} (fst (scan_cell s j k))"
proof (induction s arbitrary: j k)
  case Nil
  show ?case by (simp add: run_delta_def ends_run_def)
next
  case (Cons c cs)
  show ?case
  proof (cases "c = CHR ''+'' \<or> c = CHR ''-''")
    case True
    let ?k = "k + (if c = CHR ''+'' then 1 else - 1)"
    from Cons.IH[of "Suc j" ?k] obtain r where r:
      "cs = r @ fst (scan_cell cs (Suc j) ?k)" "set r \<subseteq> {CHR ''+'', CHR ''-''}"
      "fst (snd (scan_cell cs (Suc j) ?k)) = Suc j + length r"
      "snd (snd (scan_cell cs (Suc j) ?k)) = ?k + run_delta (CHR ''+'') r"
      "ends_run {CHR ''+'', CHR ''-''} (fst (scan_cell cs (Suc j) ?k))"
      by blast
    show ?thesis
      by (rule exI[of _ "c # r"]) (use True r in \<open>auto simp: run_delta_def\<close>)
  next
    case False
    then show ?thesis
      by (intro exI[of _ "[]"]) (simp add: run_delta_def ends_run_def)
  qed
qed

lemma scan_ptr_split:
  "\<exists>r. s = r @ fst (scan_ptr s j k) \<and> set r \<subseteq> {CHR ''>'', CHR ''<''} \<and>
       fst (snd (scan_ptr s j k)) = j + length r \<and>
       snd (snd (scan_ptr s j k)) = k + run_delta (CHR ''>'') r \<and>
       ends_run {CHR ''>'', CHR ''<''} (fst (scan_ptr s j k))"
proof (induction s arbitrary: j k)
  case Nil
  show ?case by (simp add: run_delta_def ends_run_def)
next
  case (Cons c cs)
  show ?case
  proof (cases "c = CHR ''>'' \<or> c = CHR ''<''")
    case True
    let ?k = "k + (if c = CHR ''>'' then 1 else - 1)"
    from Cons.IH[of "Suc j" ?k] obtain r where r:
      "cs = r @ fst (scan_ptr cs (Suc j) ?k)" "set r \<subseteq> {CHR ''>'', CHR ''<''}"
      "fst (snd (scan_ptr cs (Suc j) ?k)) = Suc j + length r"
      "snd (snd (scan_ptr cs (Suc j) ?k)) = ?k + run_delta (CHR ''>'') r"
      "ends_run {CHR ''>'', CHR ''<''} (fst (scan_ptr cs (Suc j) ?k))"
      by blast
    show ?thesis
      by (rule exI[of _ "c # r"]) (use True r in \<open>auto simp: run_delta_def\<close>)
  next
    case False
    then show ?thesis
      by (intro exI[of _ "[]"]) (simp add: run_delta_def ends_run_def)
  qed
qed

text \<open>The shape of \<open>ops\<close> on a non-empty text.\<close>

lemma ops_cell_run:
  assumes "r \<noteq> []" "set r \<subseteq> {CHR ''+'', CHR ''-''}" "ends_run {CHR ''+'', CHR ''-''} rest"
  shows "ops (r @ rest) j =
    (let delta = run_delta (CHR ''+'') r mod 256
     in (if delta = 0 then [] else [Op_add_cell (if delta \<le> 128 then delta else delta - 256)])
        @ ops rest (j + length r))"
proof -
  from assms(1) obtain c cs where r: "r = c # cs" by (cases r) auto
  with assms(2) have c: "c = CHR ''+'' \<or> c = CHR ''-''" by auto
  have sc: "scan_cell (c # cs @ rest) j 0 = (rest, j + length r, run_delta (CHR ''+'') r)"
    using scan_cell_run[OF assms(2,3), of j 0] r by simp
  show ?thesis
    unfolding r append_Cons
    by (subst ops.simps) (use c in \<open>simp add: sc Let_def c_norm r[symmetric] del: scan_cell.simps\<close>)
qed

lemma ops_ptr_run:
  assumes "r \<noteq> []" "set r \<subseteq> {CHR ''>'', CHR ''<''}" "ends_run {CHR ''>'', CHR ''<''} rest"
  shows "ops (r @ rest) j =
    (let delta = run_delta (CHR ''>'') r
     in (if delta = 0 then [] else [Op_move_ptr delta]) @ ops rest (j + length r))"
proof -
  from assms(1) obtain c cs where r: "r = c # cs" by (cases r) auto
  with assms(2) have c: "c = CHR ''>'' \<or> c = CHR ''<''" by auto
  then have nc: "\<not> (c = CHR ''+'' \<or> c = CHR ''-'')" by auto
  have sc: "scan_ptr (c # cs @ rest) j 0 = (rest, j + length r, run_delta (CHR ''>'') r)"
    using scan_ptr_run[OF assms(2,3), of j 0] r by simp
  show ?thesis
    unfolding r append_Cons
    by (subst ops.simps) (use c nc in \<open>simp add: sc Let_def r[symmetric] del: scan_ptr.simps\<close>)
qed

lemma ops_view:
  "s = [] \<or>
   (\<exists>w rest pre. s = w @ rest \<and> w \<noteq> [] \<and> no_brackets w \<and> (\<forall>x\<in>set pre. is_straight x) \<and>
      ops s j = pre @ ops rest (j + length w) \<and>
      (Op_putchar \<in> set pre \<longrightarrow> CHR ''.'' \<in> set w) \<and>
      (Op_getchar \<in> set pre \<longrightarrow> CHR '','' \<in> set w) \<and>
      (\<forall>c r. c = CHR ''['' \<or> c = CHR '']'' \<longrightarrow>
         ops (s @ c # r) j = pre @ ops (rest @ c # r) (j + length w))) \<or>
   (\<exists>rest. s = CHR ''['' # rest \<and> ops s j = Op_open # ops rest (Suc j)) \<or>
   (\<exists>rest. s = CHR '']'' # rest \<and> ops s j = Op_close j # ops rest (Suc j))"
proof (cases s)
  case Nil
  then show ?thesis by simp
next
  case (Cons c cs)
  consider (cell) "c = CHR ''+'' \<or> c = CHR ''-''"
    | (ptr) "c = CHR ''>'' \<or> c = CHR ''<''"
    | (put) "c = CHR ''.''" | (get) "c = CHR '',''"
    | (opn) "c = CHR ''[''" | (cls) "c = CHR '']''"
    | (other) "c \<notin> {CHR ''+'', CHR ''-'', CHR ''>'', CHR ''<'', CHR ''.'', CHR '','', CHR ''['', CHR '']''}"
    by auto
  then show ?thesis
  proof cases
    case cell
    obtain r where r: "s = r @ fst (scan_cell s j 0)" "set r \<subseteq> {CHR ''+'', CHR ''-''}"
      "ends_run {CHR ''+'', CHR ''-''} (fst (scan_cell s j 0))"
      using scan_cell_split[of s j 0] by blast
    have "r \<noteq> []"
    proof
      assume "r = []"
      with r(1) have "fst (scan_cell s j 0) = s" by simp
      with r(3) have "ends_run {CHR ''+'', CHR ''-''} s" by simp
      with Cons cell show False by (auto simp: ends_run_def)
    qed
    from ops_cell_run[OF this r(2,3), of j] r(1)
    have "ops s j = (let delta = run_delta (CHR ''+'') r mod 256
       in (if delta = 0 then [] else [Op_add_cell (if delta \<le> 128 then delta else delta - 256)])
          @ ops (fst (scan_cell s j 0)) (j + length r))"
      by simp
    moreover have "no_brackets r"
      using r(2) by (auto simp: no_brackets_def)
    moreover have "ops (s @ c' # t) j = (let delta = run_delta (CHR ''+'') r mod 256
       in (if delta = 0 then [] else [Op_add_cell (if delta \<le> 128 then delta else delta - 256)])
          @ ops (fst (scan_cell s j 0) @ c' # t) (j + length r))"
      if "c' = CHR ''['' \<or> c' = CHR '']''" for c' t
    proof -
      have "ends_run {CHR ''+'', CHR ''-''} (fst (scan_cell s j 0) @ c' # t)"
        using r(3) that by (cases "fst (scan_cell s j 0)") (auto simp: ends_run_def)
      from ops_cell_run[OF \<open>r \<noteq> []\<close> r(2) this, of j] r(1) show ?thesis
        by (metis append.assoc)
    qed
    ultimately have "\<exists>w rest pre. s = w @ rest \<and> w \<noteq> [] \<and> no_brackets w \<and> (\<forall>x\<in>set pre. is_straight x) \<and>
      ops s j = pre @ ops rest (j + length w) \<and>
      (Op_putchar \<in> set pre \<longrightarrow> CHR ''.'' \<in> set w) \<and>
      (Op_getchar \<in> set pre \<longrightarrow> CHR '','' \<in> set w) \<and>
      (\<forall>c r. c = CHR ''['' \<or> c = CHR '']'' \<longrightarrow>
         ops (s @ c # r) j = pre @ ops (rest @ c # r) (j + length w))"
      using r(1) \<open>r \<noteq> []\<close>
      by - (rule exI[of _ r], rule exI[of _ "fst (scan_cell s j 0)"],
          rule exI[of _ "if run_delta (CHR ''+'') r mod 256 = 0 then [] else [Op_add_cell (if run_delta (CHR ''+'') r mod 256 \<le> 128 then run_delta (CHR ''+'') r mod 256 else run_delta (CHR ''+'') r mod 256 - 256)]"],
          simp add: Let_def)
    then show ?thesis by blast
  next
    case ptr
    obtain r where r: "s = r @ fst (scan_ptr s j 0)" "set r \<subseteq> {CHR ''>'', CHR ''<''}"
      "ends_run {CHR ''>'', CHR ''<''} (fst (scan_ptr s j 0))"
      using scan_ptr_split[of s j 0] by blast
    have "r \<noteq> []"
    proof
      assume "r = []"
      with r(1) have "fst (scan_ptr s j 0) = s" by simp
      with r(3) have "ends_run {CHR ''>'', CHR ''<''} s" by simp
      with Cons ptr show False by (auto simp: ends_run_def)
    qed
    from ops_ptr_run[OF this r(2,3), of j] r(1)
    have "ops s j = (let delta = run_delta (CHR ''>'') r
       in (if delta = 0 then [] else [Op_move_ptr delta])
          @ ops (fst (scan_ptr s j 0)) (j + length r))"
      by simp
    moreover have "no_brackets r"
      using r(2) by (auto simp: no_brackets_def)
    moreover have "ops (s @ c' # t) j = (let delta = run_delta (CHR ''>'') r
       in (if delta = 0 then [] else [Op_move_ptr delta])
          @ ops (fst (scan_ptr s j 0) @ c' # t) (j + length r))"
      if "c' = CHR ''['' \<or> c' = CHR '']''" for c' t
    proof -
      have "ends_run {CHR ''>'', CHR ''<''} (fst (scan_ptr s j 0) @ c' # t)"
        using r(3) that by (cases "fst (scan_ptr s j 0)") (auto simp: ends_run_def)
      from ops_ptr_run[OF \<open>r \<noteq> []\<close> r(2) this, of j] r(1) show ?thesis
        by (metis append.assoc)
    qed
    ultimately have "\<exists>w rest pre. s = w @ rest \<and> w \<noteq> [] \<and> no_brackets w \<and> (\<forall>x\<in>set pre. is_straight x) \<and>
      ops s j = pre @ ops rest (j + length w) \<and>
      (Op_putchar \<in> set pre \<longrightarrow> CHR ''.'' \<in> set w) \<and>
      (Op_getchar \<in> set pre \<longrightarrow> CHR '','' \<in> set w) \<and>
      (\<forall>c r. c = CHR ''['' \<or> c = CHR '']'' \<longrightarrow>
         ops (s @ c # r) j = pre @ ops (rest @ c # r) (j + length w))"
      using r(1) \<open>r \<noteq> []\<close>
      by - (rule exI[of _ r], rule exI[of _ "fst (scan_ptr s j 0)"],
          rule exI[of _ "if run_delta (CHR ''>'') r = 0 then [] else [Op_move_ptr (run_delta (CHR ''>'') r)]"],
          simp add: Let_def)
    then show ?thesis by blast
  next
    case put
    with Cons have "\<exists>w rest pre. s = w @ rest \<and> w \<noteq> [] \<and> no_brackets w \<and> (\<forall>x\<in>set pre. is_straight x) \<and>
      ops s j = pre @ ops rest (j + length w) \<and>
      (Op_putchar \<in> set pre \<longrightarrow> CHR ''.'' \<in> set w) \<and>
      (Op_getchar \<in> set pre \<longrightarrow> CHR '','' \<in> set w) \<and>
      (\<forall>c r. c = CHR ''['' \<or> c = CHR '']'' \<longrightarrow>
         ops (s @ c # r) j = pre @ ops (rest @ c # r) (j + length w))"
      by - (rule exI[of _ "[c]"], rule exI[of _ cs], rule exI[of _ "[Op_putchar]"],
          auto simp add: ops.simps no_brackets_def)
    then show ?thesis by blast
  next
    case get
    with Cons have "\<exists>w rest pre. s = w @ rest \<and> w \<noteq> [] \<and> no_brackets w \<and> (\<forall>x\<in>set pre. is_straight x) \<and>
      ops s j = pre @ ops rest (j + length w) \<and>
      (Op_putchar \<in> set pre \<longrightarrow> CHR ''.'' \<in> set w) \<and>
      (Op_getchar \<in> set pre \<longrightarrow> CHR '','' \<in> set w) \<and>
      (\<forall>c r. c = CHR ''['' \<or> c = CHR '']'' \<longrightarrow>
         ops (s @ c # r) j = pre @ ops (rest @ c # r) (j + length w))"
      by - (rule exI[of _ "[c]"], rule exI[of _ cs], rule exI[of _ "[Op_getchar]"],
          auto simp add: ops.simps no_brackets_def)
    then show ?thesis by blast
  next
    case opn
    with Cons show ?thesis by (simp add: ops.simps)
  next
    case cls
    with Cons show ?thesis by (simp add: ops.simps)
  next
    case other
    with Cons have "\<exists>w rest pre. s = w @ rest \<and> w \<noteq> [] \<and> no_brackets w \<and> (\<forall>x\<in>set pre. is_straight x) \<and>
      ops s j = pre @ ops rest (j + length w) \<and>
      (Op_putchar \<in> set pre \<longrightarrow> CHR ''.'' \<in> set w) \<and>
      (Op_getchar \<in> set pre \<longrightarrow> CHR '','' \<in> set w) \<and>
      (\<forall>c r. c = CHR ''['' \<or> c = CHR '']'' \<longrightarrow>
         ops (s @ c # r) j = pre @ ops (rest @ c # r) (j + length w))"
      by - (rule exI[of _ "[c]"], rule exI[of _ cs], rule exI[of _ "[]"],
          auto simp add: ops.simps no_brackets_def)
    then show ?thesis by blast
  qed
qed

lemma tokenizes_ops: "tokenizes s j (ops s j)"
proof (induction "length s" arbitrary: s j rule: less_induct)
  case less
  from ops_view[of s j] show ?case
  proof (elim disjE exE conjE)
    assume "s = []"
    then show ?thesis by (simp add: ops.simps tok_nil)
  next
    fix w rest pre
    assume a: "s = w @ rest" "w \<noteq> []" "no_brackets w" "\<forall>x\<in>set pre. is_straight x"
      "ops s j = pre @ ops rest (j + length w)"
    then have "length rest < length s" by (cases w) auto
    from less[OF this] have "tokenizes rest (j + length w) (ops rest (j + length w))" .
    from tok_skip[OF a(3,4) this] a(1,5) show ?thesis by simp
  next
    fix rest
    assume a: "s = CHR ''['' # rest" "ops s j = Op_open # ops rest (Suc j)"
    then have "length rest < length s" by simp
    from tok_open[OF less[OF this]] a show ?thesis by simp
  next
    fix rest
    assume a: "s = CHR '']'' # rest" "ops s j = Op_close j # ops rest (Suc j)"
    then have "length rest < length s" by simp
    from tok_close[OF less[OF this]] a show ?thesis by simp
  qed
qed


lemma ops_append_bracket:
  "c = CHR ''['' \<or> c = CHR '']'' \<Longrightarrow> ops (s @ c # r) j = ops s j @ ops (c # r) (j + length s)"
proof (induction "length s" arbitrary: s j rule: less_induct)
  case less
  from ops_view[of s j] show ?case
  proof (elim disjE exE conjE)
    assume "s = []"
    then show ?thesis by (simp add: ops.simps)
  next
    fix w rest pre
    assume a: "s = w @ rest" "w \<noteq> []"
      "ops s j = pre @ ops rest (j + length w)"
      "\<forall>c r. c = CHR ''['' \<or> c = CHR '']'' \<longrightarrow>
         ops (s @ c # r) j = pre @ ops (rest @ c # r) (j + length w)"
    then have "length rest < length s" by (cases w) auto
    from less(1)[OF this less(2), of "j + length w"]
    have ih: "ops (rest @ c # r) (j + length w) =
        ops rest (j + length w) @ ops (c # r) (j + length w + length rest)" .
    from a(4) less(2) have "ops (s @ c # r) j = pre @ ops (rest @ c # r) (j + length w)"
      by blast
    with ih a(1,3) show ?thesis
      by (simp add: add.assoc)
  next
    fix rest
    assume a: "s = CHR ''['' # rest" "ops s j = Op_open # ops rest (Suc j)"
    then have "length rest < length s" by simp
    from less(1)[OF this less(2), of "Suc j"] a show ?thesis
      by (simp add: ops.simps)
  next
    fix rest
    assume a: "s = CHR '']'' # rest" "ops s j = Op_close j # ops rest (Suc j)"
    then have "length rest < length s" by simp
    from less(1)[OF this less(2), of "Suc j"] a show ?thesis
      by (simp add: ops.simps)
  qed
qed


lemma ops_io:
  "(Op_putchar \<in> set (ops s j) \<longrightarrow> CHR ''.'' \<in> set s) \<and>
   (Op_getchar \<in> set (ops s j) \<longrightarrow> CHR '','' \<in> set s)"
proof (induction "length s" arbitrary: s j rule: less_induct)
  case less
  from ops_view[of s j] show ?case
  proof (elim disjE exE conjE)
    assume "s = []"
    then show ?thesis by (simp add: ops.simps)
  next
    fix w rest pre
    assume a: "s = w @ rest" "w \<noteq> []"
      "ops s j = pre @ ops rest (j + length w)"
      "Op_putchar \<in> set pre \<longrightarrow> CHR ''.'' \<in> set w"
      "Op_getchar \<in> set pre \<longrightarrow> CHR '','' \<in> set w"
    then have "length rest < length s" by (cases w) auto
    from less[OF this, of "j + length w"] a show ?thesis
      by auto
  next
    fix rest
    assume a: "s = CHR ''['' # rest" "ops s j = Op_open # ops rest (Suc j)"
    then have "length rest < length s" by simp
    from less[OF this, of "Suc j"] a show ?thesis
      by auto
  next
    fix rest
    assume a: "s = CHR '']'' # rest" "ops s j = Op_close j # ops rest (Suc j)"
    then have "length rest < length s" by simp
    from less[OF this, of "Suc j"] a show ?thesis
      by auto
  qed
qed

subsection \<open>Frame properties of the emitted code\<close>

lemma length_store_bytes [simp]: "length (store_bytes buf off bs) = length buf"
  by (induction bs arbitrary: buf off) simp_all

lemma nth_store_bytes_outside:
  "k < off \<or> off + length bs \<le> k \<Longrightarrow> store_bytes buf off bs ! k = buf ! k"
  by (induction bs arbitrary: buf off) auto

lemma nth_store_bytes_inside:
  "off + length bs \<le> length buf \<Longrightarrow> i < length bs \<Longrightarrow>
   store_bytes buf off bs ! (off + i) = bs ! i"
proof (induction bs arbitrary: buf off i)
  case Nil
  then show ?case by simp
next
  case (Cons b bs)
  show ?case
  proof (cases i)
    case 0
    with Cons.prems show ?thesis
      by (simp add: nth_store_bytes_outside)
  next
    case (Suc i')
    with Cons.prems Cons.IH[of "Suc off" "buf[off := b]" i'] show ?thesis
      by simp
  qed
qed

text \<open>What one token does to the stack and the buffer.\<close>

lemma emitsD:
  "emits r st bs \<Longrightarrow> r = Inr st' \<Longrightarrow>
   code st' = code st @ bs \<and> verbose st' = verbose st \<and> length (code st') \<le> CODE_SIZE"
  by (auto simp: emits_def split: if_splits)

lemma emits_InlD: "emits r st bs \<Longrightarrow> r = Inl e \<Longrightarrow> \<exists>u n. e = Buffer_overflow u n"
  by (auto simp: emits_def split: if_splits)

lemma straight_emits:
  "is_straight x \<Longrightarrow>
   \<exists>r. run_op lk x fx st = bind_err r (\<lambda>s. Inr (fx, s)) \<and> emits r st (straight_bytes lk x)"
  by (cases x)
     (auto intro: emit_add_cell_emits emit_move_ptr_emits emit_putchar_emits emit_getchar_emits)

lemma run_op_straight:
  assumes "is_straight x" and "run_op lk x fx st = Inr (fx', st')"
  shows "fx' = fx \<and> code st' = code st @ straight_bytes lk x \<and> verbose st' = verbose st \<and>
         length (code st') \<le> CODE_SIZE"
proof -
  from straight_emits[OF assms(1), of lk fx st] obtain r where
    r: "run_op lk x fx st = bind_err r (\<lambda>s. Inr (fx, s))" "emits r st (straight_bytes lk x)"
    by blast
  with assms(2) obtain s where "r = Inr s" "fx' = fx" "st' = s"
    by (cases r) auto
  with emitsD[OF r(2)] show ?thesis by auto
qed

lemma run_op_straight_Inl:
  assumes "is_straight x" and "run_op lk x fx st = Inl e"
  shows "\<exists>u n. e = Buffer_overflow u n"
proof -
  from straight_emits[OF assms(1), of lk fx st] obtain r where
    r: "run_op lk x fx st = bind_err r (\<lambda>s. Inr (fx, s))" "emits r st (straight_bytes lk x)"
    by blast
  with assms(2) have "r = Inl e" by (cases r) auto
  with emits_InlD[OF r(2)] show ?thesis by auto
qed

lemma run_op_open:
  assumes "run_op lk Op_open fx st = Inr (fx', st')"
  shows "fx' = (length (code st) + 7) # fx \<and> code st' = code st @ enc_open \<and>
         verbose st' = verbose st \<and> length (code st') \<le> CODE_SIZE \<and> length fx < MAX_NESTING"
  using assms emit_loop_open_cases[of st]
  by (auto simp: enc_open_def cmp_cell_zero_def split: if_splits)

lemma run_op_open_Inl:
  assumes "run_op lk Op_open fx st = Inl e" and "length fx < MAX_NESTING"
  shows "\<exists>u n. e = Buffer_overflow u n"
  using assms emit_loop_open_cases[of st]
  by (auto split: if_splits)

lemma run_op_close:
  assumes "run_op lk (Op_close i) fx st = Inr (fx', st')"
  shows "\<exists>f. fx = f # fx' \<and>
           code st' = store_bytes (code st @ enc_close f (length (code st))) f
                        (u32_bytes (fwd_disp f (length (code st) + 11))) \<and>
           verbose st' = verbose st \<and> length (code st') \<le> CODE_SIZE"
proof (cases fx)
  case Nil
  with assms show ?thesis by simp
next
  case (Cons f rest)
  with assms emit_loop_close_cases[of st f] show ?thesis
    by (auto simp: enc_close_def cmp_cell_zero_def split: if_splits)
qed

lemma run_op_close_Inl:
  assumes "run_op lk (Op_close i) fx st = Inl e" and "fx \<noteq> []"
  shows "\<exists>u n. e = Buffer_overflow u n"
proof (cases fx)
  case Nil
  with assms show ?thesis by simp
next
  case (Cons f rest)
  with assms emit_loop_close_cases[of st f] show ?thesis
    by (auto split: if_splits)
qed

lemma run_op_frame:
  assumes "run_op lk x fx st = Inr (fx', st')" and "fixups_ok fx st"
  shows "length (code st) \<le> length (code st') \<and> fixups_ok fx' st' \<and>
         length (code st') \<le> CODE_SIZE \<and> verbose st' = verbose st \<and>
         (\<forall>k<length (code st). untouched fx k \<longrightarrow>
            code st' ! k = code st ! k \<and> untouched fx' k)"
proof (cases "is_straight x")
  case True
  from run_op_straight[OF True assms(1)] assms(2) show ?thesis
    by (auto simp: fixups_ok_def nth_append)
next
  case False
  then consider (opn) "x = Op_open" | (cls) i where "x = Op_close i"
    by (cases x) auto
  then show ?thesis
  proof cases
    case opn
    with run_op_open[of lk fx st fx' st'] assms show ?thesis
      by (auto simp: fixups_ok_def untouched_def nth_append enc_open_def cmp_cell_zero_def)
  next
    case cls
    with run_op_close[of lk i fx st fx' st'] assms(1) obtain f where
      f: "fx = f # fx'"
      "code st' = store_bytes (code st @ enc_close f (length (code st))) f
                        (u32_bytes (fwd_disp f (length (code st) + 11)))"
      "verbose st' = verbose st" "length (code st') \<le> CODE_SIZE"
      by blast
    have len: "length (code st') = length (code st) + 11"
      using f(2) by (simp add: enc_close_def cmp_cell_zero_def)
    have "code st' ! k = code st ! k" if "k < length (code st)" "untouched fx k" for k
    proof -
      from that(2) f(1) have "k < f \<or> f + 4 \<le> k" by (simp add: untouched_def)
      then show ?thesis
        using that(1) by (simp add: f(2) nth_store_bytes_outside nth_append)
    qed
    moreover have "untouched fx' k" if "untouched fx k" for k
      using that f(1) by (simp add: untouched_def)
    ultimately show ?thesis
      using f assms(2) len by (auto simp: fixups_ok_def)
  qed
qed

lemma run_ops_frame:
  assumes "run_ops lk os fx st = Inr (fx', st')" and "fixups_ok fx st"
  shows "length (code st) \<le> length (code st') \<and> fixups_ok fx' st' \<and>
         verbose st' = verbose st \<and>
         (\<forall>k<length (code st). untouched fx k \<longrightarrow>
            code st' ! k = code st ! k \<and> untouched fx' k)"
  using assms
proof (induction os arbitrary: fx st)
  case Nil
  then show ?case by simp
next
  case (Cons x os)
  from Cons.prems(1) obtain fx1 st1 where
    one: "run_op lk x fx st = Inr (fx1, st1)" and rest: "run_ops lk os fx1 st1 = Inr (fx', st')"
    by (cases "run_op lk x fx st") auto
  note a = run_op_frame[OF one Cons.prems(2)]
  then have ok1: "fixups_ok fx1 st1" by simp
  note b = Cons.IH[OF rest ok1]
  show ?case
  proof (intro conjI allI impI)
    show "length (code st) \<le> length (code st')" using a b by simp
    show "fixups_ok fx' st'" using b by simp
    show "verbose st' = verbose st" using a b by simp
  next
    fix k assume k: "k < length (code st)" "untouched fx k"
    with a have k1: "code st1 ! k = code st ! k" "untouched fx1 k" "k < length (code st1)"
      by auto
    with b show "code st' ! k = code st ! k" by simp
    from k1 b show "untouched fx' k" by simp
  qed
qed

lemma run_ops_length_bound:
  assumes "run_ops lk os fx st = Inr (fx', st')" and "length (code st) \<le> CODE_SIZE"
  shows "length (code st') \<le> CODE_SIZE"
  using assms
proof (induction os arbitrary: fx st)
  case Nil
  then show ?case by simp
next
  case (Cons x os)
  from Cons.prems(1) obtain fx1 st1 where
    one: "run_op lk x fx st = Inr (fx1, st1)" and rest: "run_ops lk os fx1 st1 = Inr (fx', st')"
    by (cases "run_op lk x fx st") auto
  have "length (code st1) \<le> CODE_SIZE"
  proof (cases "is_straight x")
    case True
    from run_op_straight[OF True one] show ?thesis by blast
  next
    case False
    then consider (opn) "x = Op_open" | (cls) i where "x = Op_close i"
      by (cases x) auto
    then show ?thesis
    proof cases
      case opn
      with run_op_open[of lk fx st fx1 st1] one show ?thesis by blast
    next
      case cls
      with run_op_close[of lk i fx st fx1 st1] one show ?thesis by blast
    qed
  qed
  from Cons.IH[OF rest this] show ?case .
qed

subsection \<open>The fixup stack and the nesting depth\<close>

lemma bracket_weight_other: "c \<noteq> CHR ''['' \<Longrightarrow> c \<noteq> CHR '']'' \<Longrightarrow> bracket_weight c = 0"
  by (simp add: bracket_weight_def)

lemma no_brackets_depth: "no_brackets w \<Longrightarrow> depth_of w = 0"
  by (induction w) (auto simp: no_brackets_def bracket_weight_def)

lemma no_brackets_nonneg: "no_brackets w \<Longrightarrow> nonneg_from d (w @ t) = nonneg_from d t"
proof (induction w)
  case Nil
  show ?case by simp
next
  case (Cons c w)
  then have "bracket_weight c = 0" "no_brackets w"
    by (auto simp: no_brackets_def bracket_weight_def)
  with Cons.IH nonneg_from_start[of d t] show ?case by auto
qed

lemma no_brackets_max: "no_brackets w \<Longrightarrow> max_from d (w @ t) = max_from d t"
proof (induction w)
  case Nil
  show ?case by simp
next
  case (Cons c w)
  then have "bracket_weight c = 0" "no_brackets w"
    by (auto simp: no_brackets_def bracket_weight_def)
  with Cons.IH max_from_ge[of d t] show ?case by auto
qed

lemma run_ops_straight_list:
  assumes "\<forall>x\<in>set pre. is_straight x" and "run_ops lk pre fx st = Inr (fx', st')"
  shows "fx' = fx"
  using assms
proof (induction pre arbitrary: st)
  case Nil
  then show ?case by simp
next
  case (Cons x pre)
  from Cons.prems(2) obtain fx1 st1 where
    one: "run_op lk x fx st = Inr (fx1, st1)" and rest: "run_ops lk pre fx1 st1 = Inr (fx', st')"
    by (cases "run_op lk x fx st") auto
  from Cons.prems(1) have "is_straight x" by simp
  from run_op_straight[OF this one] have "fx1 = fx" by simp
  with Cons.IH[of st1] Cons.prems(1) rest show ?case by simp
qed

lemma run_ops_straight_list_Inl:
  assumes "\<forall>x\<in>set pre. is_straight x" and "run_ops lk pre fx st = Inl e"
  shows "\<exists>u n. e = Buffer_overflow u n"
  using assms
proof (induction pre arbitrary: st)
  case Nil
  then show ?case by simp
next
  case (Cons x pre)
  from Cons.prems(1) have sx: "is_straight x" by simp
  show ?case
  proof (cases "run_op lk x fx st")
    case (Inl e')
    with Cons.prems(2) have "e' = e" by simp
    with run_op_straight_Inl[OF sx] Inl show ?thesis by blast
  next
    case (Inr p)
    obtain fx1 st1 where p: "p = (fx1, st1)" by (cases p)
    from run_op_straight[OF sx Inr[unfolded p]] have "fx1 = fx" by simp
    with Cons.IH[of st1] Cons.prems Inr p show ?thesis by simp
  qed
qed

text \<open>The fixup stack follows the nesting depth of the text.\<close>

lemma run_ops_stack:
  assumes "tokenizes s j os" and "run_ops lk os (new @ old) st = Inr (fx', st')"
    and "nonneg_from (int (length new)) s"
  shows "\<exists>new'. fx' = new' @ old \<and> int (length new') = int (length new) + depth_of s"
  using assms
proof (induction arbitrary: new st rule: tokenizes.induct)
  case (tok_nil j)
  then show ?case by auto
next
  case (tok_skip w pre rest j os)
  from tok_skip.prems(1) obtain fx1 st1 where
    one: "run_ops lk pre (new @ old) st = Inr (fx1, st1)"
    and more: "run_ops lk os fx1 st1 = Inr (fx', st')"
    by (cases "run_ops lk pre (new @ old) st") (auto simp: run_ops_append)
  from run_ops_straight_list[OF tok_skip.hyps(2) one] have "fx1 = new @ old" .
  with tok_skip.IH[of new st1] more tok_skip.prems(2) tok_skip.hyps(1)
  show ?case by (simp add: no_brackets_nonneg no_brackets_depth)
next
  case (tok_open rest j os)
  from tok_open.prems(1) obtain fx1 st1 where
    one: "run_op lk Op_open (new @ old) st = Inr (fx1, st1)"
    and more: "run_ops lk os fx1 st1 = Inr (fx', st')"
    by (cases "run_op lk Op_open (new @ old) st") auto
  from run_op_open[OF one] obtain f where f: "fx1 = (f # new) @ old" by simp
  from tok_open.prems(2) have "nonneg_from (int (length (f # new))) rest"
    by (simp add: bracket_weight_def add.commute)
  from tok_open.IH[OF more[unfolded f] this] show ?case
    by (auto simp: bracket_weight_def)
next
  case (tok_close rest j os)
  from tok_close.prems(2) have nn: "nonneg_from (int (length new) - 1) rest"
    by (simp add: bracket_weight_def)
  then have "0 \<le> int (length new) - 1" by (rule nonneg_from_start)
  then obtain f new1 where new: "new = f # new1" by (cases new) auto
  from tok_close.prems(1) obtain fx1 st1 where
    one: "run_op lk (Op_close j) (new @ old) st = Inr (fx1, st1)"
    and more: "run_ops lk os fx1 st1 = Inr (fx', st')"
    by (cases "run_op lk (Op_close j) (new @ old) st") auto
  from run_op_close[OF one] new have fx1: "fx1 = new1 @ old" by auto
  from nn new have "nonneg_from (int (length new1)) rest" by simp
  from tok_close.IH[OF more[unfolded fx1] this] new show ?case
    by (auto simp: bracket_weight_def)
qed

text \<open>On a text that the validator accepts, the only failure is the overflow check.\<close>

lemma run_ops_only_overflow:
  assumes "tokenizes s j os" and "run_ops lk os fx st = Inl e"
    and "nonneg_from (int (length fx)) s" and "max_from (int (length fx)) s \<le> 256"
  shows "\<exists>u n. e = Buffer_overflow u n"
  using assms
proof (induction arbitrary: fx st rule: tokenizes.induct)
  case (tok_nil j)
  then show ?case by simp
next
  case (tok_skip w pre rest j os)
  show ?case
  proof (cases "run_ops lk pre fx st")
    case (Inl e')
    with tok_skip.prems(1) have "e' = e" by (simp add: run_ops_append)
    with run_ops_straight_list_Inl[OF tok_skip.hyps(2) Inl] show ?thesis by simp
  next
    case (Inr p)
    obtain fx1 st1 where p: "p = (fx1, st1)" by (cases p)
    from run_ops_straight_list[OF tok_skip.hyps(2) Inr[unfolded p]] have "fx1 = fx" .
    with tok_skip.IH[of fx st1] tok_skip.prems tok_skip.hyps(1) Inr p show ?thesis
      by (simp add: run_ops_append no_brackets_nonneg no_brackets_max)
  qed
next
  case (tok_open rest j os)
  from tok_open.prems(3) max_from_ge[of "int (length fx) + 1" rest]
  have lt: "length fx < MAX_NESTING"
    by (simp add: bracket_weight_def MAX_NESTING_def)
  show ?case
  proof (cases "run_op lk Op_open fx st")
    case (Inl e')
    with tok_open.prems(1) have "e' = e" by simp
    with run_op_open_Inl[OF Inl lt] show ?thesis by simp
  next
    case (Inr p)
    obtain fx1 st1 where p: "p = (fx1, st1)" by (cases p)
    from run_op_open[OF Inr[unfolded p]] obtain f where f: "fx1 = f # fx" by simp
    from tok_open.prems(2,3) have "nonneg_from (int (length fx1)) rest"
      "max_from (int (length fx1)) rest \<le> 256"
      by (simp_all add: f bracket_weight_def add.commute)
    with tok_open.IH[of fx1 st1] tok_open.prems(1) Inr p show ?thesis by simp
  qed
next
  case (tok_close rest j os)
  from tok_close.prems(2) have nn: "nonneg_from (int (length fx) - 1) rest"
    by (simp add: bracket_weight_def)
  then have "0 \<le> int (length fx) - 1" by (rule nonneg_from_start)
  then have ne: "fx \<noteq> []" by auto
  show ?case
  proof (cases "run_op lk (Op_close j) fx st")
    case (Inl e')
    with tok_close.prems(1) have "e' = e" by simp
    with run_op_close_Inl[OF Inl ne] show ?thesis by simp
  next
    case (Inr p)
    obtain fx1 st1 where p: "p = (fx1, st1)" by (cases p)
    from run_op_close[OF Inr[unfolded p]] obtain f where f: "fx = f # fx1" by auto
    from nn tok_close.prems(3) have "nonneg_from (int (length fx1)) rest"
      "max_from (int (length fx1)) rest \<le> 256"
      by (simp_all add: f bracket_weight_def)
    with tok_close.IH[of fx1 st1] tok_close.prems(1) Inr p show ?thesis by simp
  qed
qed

subsection \<open>Prologue and epilogue\<close>

lemma compile_loop_result:
  "compile lk src (initial_state v) =
     bind_err (loop_result lk v src) (\<lambda>(fixups, s). emit_epilogue s)"
  by (simp add: compile_def loop_result_def bind_err_assoc)

lemma length_prologue [simp]: "length prologue = 14"
  by (simp add: prologue_def)

lemma length_epilogue [simp]: "length epilogue = 6"
  by (simp add: epilogue_def)


lemma emit_prologue_initial: "emit_prologue (initial_state v) = Inr (after_prologue v)"
  by (simp add: emit_prologue_def emit_defs initial_state_def CODE_SIZE_def after_prologue_def)

lemma code_after_prologue [simp]: "code (after_prologue v) = prologue"
  by (simp add: after_prologue_def initial_state_def)

lemma verbose_after_prologue [simp]: "verbose (after_prologue v) = v"
  by (simp add: after_prologue_def initial_state_def)

lemma loop_result_run_ops: "loop_result lk v src = run_ops lk (ops src 0) [] (after_prologue v)"
  by (simp add: loop_result_def emit_prologue_initial compile_loop_run_ops)

lemma emit_epilogue_code:
  assumes "length (code st) + 6 \<le> CODE_SIZE"
  shows "\<exists>st'. emit_epilogue st = Inr st' \<and> code st' = code st @ epilogue"
  using emit_epilogue_emits[of st] assms by (auto simp: emits_def)


subsection \<open>Code that does not depend on the process\<close>

lemma emits_same:
  assumes "emits r1 st1 bs" and "emits r2 st2 bs" and "code st1 = code st2"
  shows "same_result (bind_err r1 (\<lambda>s. Inr (fx, s))) (bind_err r2 (\<lambda>s. Inr (fx, s)))"
  using assms by (auto simp: emits_def same_result_def split: if_splits)

lemma straight_bytes_agree:
  "is_straight x \<Longrightarrow> agree_on lk1 lk2 x \<Longrightarrow> straight_bytes lk1 x = straight_bytes lk2 x"
  by (cases x) (simp_all add: agree_on_def enc_putchar_def enc_getchar_def)

lemma run_op_same:
  assumes "code st1 = code st2" and "agree_on lk1 lk2 x"
  shows "same_result (run_op lk1 x fx st1) (run_op lk2 x fx st2)"
proof (cases "is_straight x")
  case True
  from straight_emits[OF True, of lk1 fx st1] obtain r1 where
    r1: "run_op lk1 x fx st1 = bind_err r1 (\<lambda>s. Inr (fx, s))" "emits r1 st1 (straight_bytes lk1 x)"
    by blast
  from straight_emits[OF True, of lk2 fx st2] obtain r2 where
    r2: "run_op lk2 x fx st2 = bind_err r2 (\<lambda>s. Inr (fx, s))" "emits r2 st2 (straight_bytes lk2 x)"
    by blast
  from r1(2) have "emits r1 st1 (straight_bytes lk2 x)"
    by (simp add: straight_bytes_agree[OF True assms(2)])
  from emits_same[OF this r2(2) assms(1)] r1(1) r2(1) show ?thesis by simp
next
  case False
  then consider (opn) "x = Op_open" | (cls) i where "x = Op_close i"
    by (cases x) auto
  then show ?thesis
  proof cases
    case opn
    with emit_loop_open_cases[of st1] emit_loop_open_cases[of st2] assms(1) show ?thesis
      by (auto simp: same_result_def split: if_splits)
  next
    case cls
    show ?thesis
    proof (cases fx)
      case Nil
      with cls show ?thesis by (simp add: same_result_def)
    next
      case (Cons f rest)
      with cls emit_loop_close_cases[of st1 f] emit_loop_close_cases[of st2 f] assms(1)
      show ?thesis
        by (auto simp: same_result_def split: if_splits)
    qed
  qed
qed

lemma run_ops_same:
  assumes "code st1 = code st2" and "\<forall>x\<in>set os. agree_on lk1 lk2 x"
  shows "same_result (run_ops lk1 os fx st1) (run_ops lk2 os fx st2)"
  using assms
proof (induction os arbitrary: fx st1 st2)
  case Nil
  then show ?case by (simp add: same_result_def)
next
  case (Cons x os)
  from Cons.prems have "same_result (run_op lk1 x fx st1) (run_op lk2 x fx st2)"
    by (intro run_op_same) simp_all
  then show ?case
  proof (cases "run_op lk1 x fx st1")
    case (Inl e1)
    with \<open>same_result _ _\<close> obtain e2 where "run_op lk2 x fx st2 = Inl e2"
      by (cases "run_op lk2 x fx st2") (auto simp: same_result_def)
    with Inl show ?thesis by (simp add: same_result_def)
  next
    case (Inr p)
    with \<open>same_result _ _\<close> obtain q where q: "run_op lk2 x fx st2 = Inr q"
      "fst p = fst q" "code (snd p) = code (snd q)"
      by (cases "run_op lk2 x fx st2") (auto simp: same_result_def)
    from Cons.IH[OF q(3), of "fst p"] Cons.prems(2)
    have "same_result (run_ops lk1 os (fst p) (snd p)) (run_ops lk2 os (fst p) (snd q))"
      by simp
    with Inr q show ?thesis by (simp add: split_def)
  qed
qed


subsection \<open>Reading a displacement back\<close>

lemma le32_u32_bytes: "le32 (u32_bytes v @ rest) = v"
proof (rule bit_word_eqI)
  fix n assume n: "n < LENGTH(32)"
  have eq: "le32 (u32_bytes v @ rest) =
      ucast (ucast v :: u8) OR push_bit 8 (ucast (ucast (drop_bit 8 v) :: u8)) OR
      push_bit 16 (ucast (ucast (drop_bit 16 v) :: u8)) OR
      push_bit 24 (ucast (ucast (drop_bit 24 v) :: u8))"
    by (simp add: le32_def u32_bytes_def)
  consider "n < 8" | "8 \<le> n" "n < 16" | "16 \<le> n" "n < 24" | "24 \<le> n" "n < 32"
    using n by fastforce
  then show "bit (le32 (u32_bytes v @ rest)) n = bit v n"
  proof cases
    case 1
    then show ?thesis unfolding eq by (auto simp add: bit_simps)
  next
    case 2
    then have "8 + (n - 8) = n" by simp
    with 2 show ?thesis unfolding eq by (auto simp add: bit_simps)
  next
    case 3
    then have "16 + (n - 16) = n" by simp
    with 3 show ?thesis unfolding eq by (auto simp add: bit_simps)
  next
    case 4
    then have "24 + (n - 24) = n" by simp
    with 4 show ?thesis unfolding eq by (auto simp add: bit_simps)
  qed
qed


subsection \<open>Displacements\<close>

lemma ucast_u64_u32_of_int: "(ucast (word_of_int k :: u64) :: u32) = word_of_int k"
  by (rule ucast_down_wi) (simp add: is_down)

lemma sint_u32_of_int:
  "- (2 ^ 31) \<le> k \<Longrightarrow> k < 2 ^ 31 \<Longrightarrow> sint (word_of_int k :: u32) = k"
  by (simp add: sint_sbintrunc' signed_take_bit_int_eq_self)

lemma fwd_disp_of_int: "fwd_disp f n = word_of_int (int n - (int f + 4))"
proof -
  have "(of_nat n :: u64) - (of_nat f + 4) = word_of_int (int n - (int f + 4))"
    by simp
  then show ?thesis
    by (simp only: fwd_disp_def ucast_u64_u32_of_int)
qed

lemma back_disp_of_int: "back_disp f n = word_of_int (int f - 7 - (int n + 4))"
proof -
  have "((of_nat f :: u64) - 7) - (of_nat n + 4) = word_of_int (int f - 7 - (int n + 4))"
    by simp
  then show ?thesis
    by (simp only: back_disp_def ucast_u64_u32_of_int)
qed

lemma sint_fwd_disp:
  assumes "a \<le> b" and "b \<le> CODE_SIZE"
  shows "sint (fwd_disp (a + 7) (b + 11)) = int b - int a"
proof -
  have "int (b + 11) - (int (a + 7) + 4) = int b - int a" by simp
  moreover have "- (2 ^ 31) \<le> int b - int a" "int b - int a < 2 ^ 31"
    using assms by (simp_all add: CODE_SIZE_def)
  ultimately show ?thesis
    by (simp only: fwd_disp_of_int sint_u32_of_int)
qed

lemma sint_back_disp:
  assumes "a \<le> b" and "b \<le> CODE_SIZE"
  shows "sint (back_disp (a + 7) (b + 7)) = int a - (int b + 11)"
proof -
  have "int (a + 7) - 7 - (int (b + 7) + 4) = int a - (int b + 11)" by simp
  moreover have "- (2 ^ 31) \<le> int a - (int b + 11)" "int a - (int b + 11) < 2 ^ 31"
    using assms by (simp_all add: CODE_SIZE_def)
  ultimately show ?thesis
    by (simp only: back_disp_of_int sint_u32_of_int)
qed


lemma run_ops_append_Inr:
  assumes "run_ops lk (xs @ ys) fx st = Inr r"
  shows "\<exists>fx1 st1. run_ops lk xs fx st = Inr (fx1, st1) \<and> run_ops lk ys fx1 st1 = Inr r"
  using assms by (cases "run_ops lk xs fx st") (auto simp: run_ops_append)

lemma run_ops_Cons_Inr:
  assumes "run_ops lk (x # xs) fx st = Inr r"
  shows "\<exists>fx1 st1. run_op lk x fx st = Inr (fx1, st1) \<and> run_ops lk xs fx1 st1 = Inr r"
  using assms by (cases "run_op lk x fx st") auto

lemma take_drop_eqI:
  assumes "a + n \<le> length xs" and "a + n \<le> length ys"
    and "\<And>i. i < n \<Longrightarrow> xs ! (a + i) = ys ! (a + i)"
  shows "take n (drop a xs) = take n (drop a ys)"
  using assms by (intro nth_equalityI) simp_all

lemma run_ops_frame_block:
  assumes "run_ops lk os fx st = Inr (fx', st')" and "fixups_ok fx st"
    and "\<forall>f\<in>set fx. f + 4 \<le> a" and "a + n \<le> length (code st)"
  shows "take n (drop a (code st')) = take n (drop a (code st))"
proof (rule take_drop_eqI)
  note fr = run_ops_frame[OF assms(1,2)]
  show "a + n \<le> length (code st')" using fr assms(4) by simp
  show "a + n \<le> length (code st)" by (rule assms(4))
  fix i assume "i < n"
  then have "a + i < length (code st)" using assms(4) by simp
  moreover have "untouched fx (a + i)"
    using assms(3) by (auto simp: untouched_def)
  ultimately show "code st' ! (a + i) = code st ! (a + i)"
    using fr by simp
qed

lemma length_enc_open [simp]: "length enc_open = 11"
  by (simp add: enc_open_def cmp_cell_zero_def)

lemma length_enc_close [simp]: "length (enc_close f n) = 11"
  by (simp add: enc_close_def cmp_cell_zero_def)

lemma length_open_block [simp]: "length (open_block d) = 11"
  by (simp add: open_block_def cmp_cell_zero_def)

lemma enc_open_block: "enc_open = open_block 0"
  by (simp add: enc_open_def open_block_def)

lemma open_block_nth_low: "i < 7 \<Longrightarrow> open_block d ! i = open_block 0 ! i"
proof -
  assume "i < 7"
  have "open_block d = (cmp_cell_zero @ [0x0f, 0x84]) @ u32_bytes d" for d
    by (simp add: open_block_def)
  moreover have "length (cmp_cell_zero @ [0x0f, 0x84]) = 7"
    by (simp add: cmp_cell_zero_def)
  ultimately show ?thesis
    using \<open>i < 7\<close> by (simp only: nth_append) simp
qed

lemma open_block_nth_high: "i < 4 \<Longrightarrow> open_block d ! (7 + i) = u32_bytes d ! i"
proof -
  assume "i < 4"
  have "open_block d = (cmp_cell_zero @ [0x0f, 0x84]) @ u32_bytes d"
    by (simp add: open_block_def)
  moreover have "length (cmp_cell_zero @ [0x0f, 0x84]) = 7"
    by (simp add: cmp_cell_zero_def)
  ultimately show ?thesis
    by (metis nth_append_length_plus)
qed

text \<open>One loop: the state after the close, given that the body restores the stack.\<close>

lemma loop_blocks:
  assumes ok: "fixups_ok fx1 st1"
    and opn: "run_op lk Op_open fx1 st1 = Inr (fx2, st2)"
    and body: "run_ops lk os fx2 st2 = Inr (fx2, st3)"
    and cls: "run_op lk (Op_close j) fx2 st3 = Inr (fx4, st4)"
  defines "a \<equiv> length (code st1)" and "b \<equiv> length (code st3)"
  shows "fx4 = fx1" and "fixups_ok fx1 st4" and "length (code st4) = b + 11"
    and "a + 11 \<le> b" and "b + 11 \<le> CODE_SIZE"
    and "take 11 (drop a (code st4)) = open_block (fwd_disp (a + 7) (b + 11))"
    and "take 11 (drop b (code st4)) = enc_close (a + 7) b"
proof -
  from run_op_open[OF opn] have fx2: "fx2 = (a + 7) # fx1"
    and c2: "code st2 = code st1 @ enc_open"
    by (simp_all add: a_def)
  from run_op_frame[OF opn ok] have ok2: "fixups_ok fx2 st2" by simp
  note fr = run_ops_frame[OF body ok2]
  have len2: "length (code st2) = a + 11" by (simp add: c2 a_def)
  with fr show ab: "a + 11 \<le> b" by (simp add: b_def)
  from fr have ok3: "fixups_ok fx2 st3" by simp
  from run_op_close[OF cls] obtain f where f: "fx2 = f # fx4"
    and c4: "code st4 = store_bytes (code st3 @ enc_close f b) f (u32_bytes (fwd_disp f (b + 11)))"
    and le4: "length (code st4) \<le> CODE_SIZE"
    by (auto simp: b_def)
  from f fx2 have ff: "f = a + 7" and "fx4 = fx1" by simp_all
  then show "fx4 = fx1" by simp
  show len4: "length (code st4) = b + 11" by (simp add: c4 b_def)
  with le4 show "b + 11 \<le> CODE_SIZE" by simp
  from run_op_frame[OF cls ok3] \<open>fx4 = fx1\<close> show "fixups_ok fx1 st4" by simp
  have low: "code st3 ! (a + i) = open_block 0 ! i" if "i < 7" for i
  proof -
    have "a + i < length (code st2)" using that len2 by simp
    moreover have "untouched fx2 (a + i)"
      using ok that by (auto simp: untouched_def fx2 fixups_ok_def a_def)
    ultimately have "code st3 ! (a + i) = code st2 ! (a + i)" using fr by simp
    also have "\<dots> = enc_open ! i" by (simp add: c2 a_def)
    finally show ?thesis by (simp add: enc_open_block)
  qed
  show "take 11 (drop a (code st4)) = open_block (fwd_disp (a + 7) (b + 11))"
  proof (rule nth_equalityI)
    show "length (take 11 (drop a (code st4))) = length (open_block (fwd_disp (a + 7) (b + 11)))"
      using len4 ab by simp
  next
    fix i assume "i < length (take 11 (drop a (code st4)))"
    then have i: "i < 11" by simp
    have lhs: "take 11 (drop a (code st4)) ! i = code st4 ! (a + i)"
      using i len4 ab by simp
    show "take 11 (drop a (code st4)) ! i = open_block (fwd_disp (a + 7) (b + 11)) ! i"
    proof (cases "i < 7")
      case True
      then have "code st4 ! (a + i) = (code st3 @ enc_close f b) ! (a + i)"
        by (simp add: c4 ff nth_store_bytes_outside)
      also have "\<dots> = code st3 ! (a + i)"
        using True ab by (simp add: nth_append b_def)
      finally show ?thesis
        using lhs low[OF True] open_block_nth_low[OF True, of "fwd_disp (a + 7) (b + 11)"]
        by simp
    next
      case False
      define k where "k = i - 7"
      have k: "i = 7 + k" "k < 4"
        using i False by (simp_all add: k_def)
      have "f + length (u32_bytes (fwd_disp f (b + 11))) \<le> length (code st3 @ enc_close f b)"
        using ab by (simp add: ff b_def)
      from nth_store_bytes_inside[OF this, of k] k(2)
      have "code st4 ! (f + k) = u32_bytes (fwd_disp f (b + 11)) ! k"
        by (simp add: c4)
      then show ?thesis
        using lhs k open_block_nth_high[OF k(2)] by (simp add: ff add.assoc)
    qed
  qed
  show "take 11 (drop b (code st4)) = enc_close (a + 7) b"
  proof (rule nth_equalityI)
    show "length (take 11 (drop b (code st4))) = length (enc_close (a + 7) b)"
      using len4 by simp
  next
    fix i assume "i < length (take 11 (drop b (code st4)))"
    then have i: "i < 11" by simp
    have "take 11 (drop b (code st4)) ! i = code st4 ! (b + i)"
      using i len4 by simp
    also have "\<dots> = (code st3 @ enc_close f b) ! (b + i)"
      using ab by (simp add: c4 ff nth_store_bytes_outside)
    also have "\<dots> = enc_close f b ! i"
      by (simp add: b_def)
    finally show "take 11 (drop b (code st4)) ! i = enc_close (a + 7) b ! i"
      by (simp add: ff)
  qed
qed

lemma decode_cmp: "decode (cmp_cell_zero @ bs) = Some (Cmp_cell 0, 5)"
  by (simp add: decode_def starts_def cmp_cell_zero_def)

lemma decode_je: "decode (0x0f # 0x84 # u32_bytes d @ bs) = Some (Je d, 6)"
  by (simp add: decode_def starts_def le32_u32_bytes)

lemma decode_jne: "decode (0x0f # 0x85 # u32_bytes d @ bs) = Some (Jne d, 6)"
  by (simp add: decode_def starts_def le32_u32_bytes)

lemma drop_block:
  assumes "take n (drop a xs) = blk" and "length blk = n"
  shows "drop a xs = blk @ drop (a + n) xs"
proof -
  have "drop (a + n) xs = drop n (drop a xs)"
    by (simp add: add.commute)
  then have "drop a xs = take n (drop a xs) @ drop (a + n) xs"
    by (simp only: append_take_drop_id)
  with assms(1) show ?thesis by simp
qed

lemma loop_fixups_decomposed:
  assumes comp: "compile lk src (initial_state v) = Inr st"
    and src: "src = pre @ CHR ''['' # body @ CHR '']'' # post"
    and bal: "balanced body"
  defines "a \<equiv> offset_at lk v src (length pre)"
    and "b \<equiv> offset_at lk v src (Suc (length pre + length body))"
  shows "drop a (code st) = open_block (fwd_disp (a + 7) (b + 11)) @ drop (a + 11) (code st)"
    and "drop b (code st) = enc_close (a + 7) b @ drop (b + 11) (code st)"
    and "a + 11 \<le> b" and "b + 11 \<le> CODE_SIZE"
proof -
  let ?s0 = "after_prologue v"
  let ?j1 = "Suc (length pre)"
  let ?j2 = "Suc (length pre) + length body"
  let ?A = "ops pre 0" and ?B = "ops body ?j1" and ?C = "ops post (Suc ?j2)"
  from comp obtain fx5 st5 where lr: "loop_result lk v src = Inr (fx5, st5)"
    and ep: "emit_epilogue st5 = Inr st"
    by (cases "loop_result lk v src") (auto simp: compile_loop_result)
  have body_ops: "ops (body @ CHR '']'' # post) ?j1 = ?B @ Op_close ?j2 # ?C"
    by (simp add: ops_append_bracket ops.simps)
  have all_ops: "ops src 0 = ?A @ Op_open # ?B @ Op_close ?j2 # ?C"
    unfolding src by (simp add: ops_append_bracket ops.simps body_ops)
  have pre_ops: "ops (pre @ CHR ''['' # body) 0 = ?A @ Op_open # ?B"
    by (simp add: ops_append_bracket ops.simps)
  from lr have "run_ops lk (?A @ Op_open # ?B @ Op_close ?j2 # ?C) [] ?s0 = Inr (fx5, st5)"
    by (simp add: loop_result_run_ops all_ops)
  from run_ops_append_Inr[OF this] obtain fx1 st1 where
    r1: "run_ops lk ?A [] ?s0 = Inr (fx1, st1)"
    and "run_ops lk (Op_open # ?B @ Op_close ?j2 # ?C) fx1 st1 = Inr (fx5, st5)"
    by blast
  from run_ops_Cons_Inr[OF this(2)] obtain fx2 st2 where
    r2: "run_op lk Op_open fx1 st1 = Inr (fx2, st2)"
    and "run_ops lk (?B @ Op_close ?j2 # ?C) fx2 st2 = Inr (fx5, st5)"
    by blast
  from run_ops_append_Inr[OF this(2)] obtain fx3 st3 where
    r3: "run_ops lk ?B fx2 st2 = Inr (fx3, st3)"
    and "run_ops lk (Op_close ?j2 # ?C) fx3 st3 = Inr (fx5, st5)"
    by blast
  from run_ops_Cons_Inr[OF this(2)] obtain fx4 st4 where
    r4: "run_op lk (Op_close ?j2) fx3 st3 = Inr (fx4, st4)"
    and r5: "run_ops lk ?C fx4 st4 = Inr (fx5, st5)"
    by blast
  from bal have nn: "nonneg_from (int (length ([]::nat list))) body" and dz: "depth_of body = 0"
    by (simp_all add: balanced_def)
  from r3 have "run_ops lk ?B ([] @ fx2) st2 = Inr (fx3, st3)" by simp
  from run_ops_stack[OF tokenizes_ops this nn] dz have fx3: "fx3 = fx2" by auto
  have a: "a = length (code st1)"
    by (simp add: a_def offset_at_def src loop_result_run_ops r1)
  have "take (Suc (length pre + length body)) src = pre @ CHR ''['' # body"
    by (simp add: src)
  moreover have "run_ops lk (?A @ Op_open # ?B) [] ?s0 = Inr (fx3, st3)"
    by (simp add: run_ops_append r1 r2 r3 del: run_op.simps)
  ultimately have b: "b = length (code st3)"
    by (simp add: b_def offset_at_def loop_result_run_ops pre_ops)
  have ok0: "fixups_ok [] ?s0" by (simp add: fixups_ok_def)
  from run_ops_frame[OF r1 ok0] have ok1: "fixups_ok fx1 st1" by simp
  note lb = loop_blocks[OF ok1 r2 r3[unfolded fx3] r4[unfolded fx3], folded a b]
  from lb(4) show ab: "a + 11 \<le> b" .
  from lb(5) show "b + 11 \<le> CODE_SIZE" .
  have bound: "\<forall>f\<in>set fx1. f + 4 \<le> a"
    using ok1 by (simp add: fixups_ok_def a)
  have r5': "run_ops lk ?C fx1 st4 = Inr (fx5, st5)"
    using r5 lb(1) by simp
  have t5a: "take 11 (drop a (code st5)) = take 11 (drop a (code st4))"
    by (rule run_ops_frame_block[OF r5' lb(2) bound]) (use lb(3) ab in simp)
  have bound_b: "\<forall>f\<in>set fx1. f + 4 \<le> b"
    using bound ab by auto
  have t5b: "take 11 (drop b (code st5)) = take 11 (drop b (code st4))"
    by (rule run_ops_frame_block[OF r5' lb(2) bound_b]) (use lb(3) in simp)
  from run_ops_frame[OF r5' lb(2)] lb(3) have len5: "b + 11 \<le> length (code st5)"
    by simp
  from emitsD[OF emit_epilogue_emits ep] have cst: "code st = code st5 @ epilogue"
    by simp
  have ta: "take 11 (drop a (code st)) = open_block (fwd_disp (a + 7) (b + 11))"
    using len5 ab t5a lb(6) by (simp add: cst)
  have tb: "take 11 (drop b (code st)) = enc_close (a + 7) b"
    using len5 t5b lb(7) by (simp add: cst)
  from drop_block[OF ta] show
    "drop a (code st) = open_block (fwd_disp (a + 7) (b + 11)) @ drop (a + 11) (code st)"
    by simp
  from drop_block[OF tb] show "drop b (code st) = enc_close (a + 7) b @ drop (b + 11) (code st)"
    by simp
qed

subsection \<open>Matching brackets\<close>

lemma first_return:
  "depth_of t + e < 0 \<Longrightarrow> 0 \<le> e \<Longrightarrow>
   \<exists>body post. t = body @ CHR '']'' # post \<and> nonneg_from e body \<and> e + depth_of body = 0"
proof (induction t arbitrary: e)
  case Nil
  then show ?case by simp
next
  case (Cons c cs)
  show ?case
  proof (cases "c = CHR '']'' \<and> e = 0")
    case True
    then have "c # cs = [] @ CHR '']'' # cs \<and> nonneg_from e [] \<and> e + depth_of [] = 0"
      by simp
    then show ?thesis by blast
  next
    case False
    let ?e = "e + bracket_weight c"
    from False Cons.prems(2) have e': "0 \<le> ?e"
      by (auto simp: bracket_weight_def)
    from Cons.prems(1) have "depth_of cs + ?e < 0" by simp
    from Cons.IH[OF this e'] obtain body post where
      b: "cs = body @ CHR '']'' # post" "nonneg_from ?e body" "?e + depth_of body = 0"
      by blast
    then have "c # cs = (c # body) @ CHR '']'' # post \<and> nonneg_from e (c # body) \<and>
        e + depth_of (c # body) = 0"
      using Cons.prems(2) by (simp add: add.assoc)
    then show ?thesis by blast
  qed
qed

lemma last_rise:
  "1 \<le> T \<Longrightarrow> T \<le> depth_of t \<Longrightarrow>
   \<exists>pre body. t = pre @ CHR ''['' # body \<and> depth_of pre = T - 1 \<and> nonneg_from 0 body"
proof (induction t rule: rev_induct)
  case Nil
  then show ?case by simp
next
  case (snoc c xs)
  show ?case
  proof (cases "T \<le> depth_of xs")
    case True
    from snoc.IH[OF snoc.prems(1) True] obtain pre body where
      b: "xs = pre @ CHR ''['' # body" "depth_of pre = T - 1" "nonneg_from 0 body"
      by blast
    from b(1,2) have db: "depth_of body = depth_of xs - T"
      by (simp add: bracket_weight_def)
    have "nonneg_from 0 (body @ [c])"
      using b(3) db True snoc.prems(2) by (simp add: nonneg_from_append)
    with b have "xs @ [c] = pre @ CHR ''['' # (body @ [c]) \<and> depth_of pre = T - 1 \<and>
        nonneg_from 0 (body @ [c])"
      by simp
    then show ?thesis by blast
  next
    case False
    with snoc.prems(2) have "bracket_weight c = 1" "depth_of xs = T - 1"
      by (auto simp: bracket_weight_def split: if_splits)
    then have "c = CHR ''[''" by (auto simp: bracket_weight_def split: if_splits)
    with \<open>depth_of xs = T - 1\<close>
    have "xs @ [c] = xs @ CHR ''['' # [] \<and> depth_of xs = T - 1 \<and> nonneg_from 0 []"
      by simp
    then show ?thesis by blast
  qed
qed

lemma validated_balanced: "validate_brackets src = Inr () \<Longrightarrow> balanced src"
proof -
  assume v: "validate_brackets src = Inr ()"
  then obtain m f where vl: "validate_loop src 0 0 0 0 = Inr (0, m, f)"
    by (auto simp: validate_brackets_def split: sum.splits prod.splits if_splits)
  from vl have nn: "nonneg_from 0 src"
    by (rule validate_loop_nonneg) simp
  from validate_loop_ok[OF nn, of 0 0 0] vl have "depth_of src = 0" by auto
  with nn show ?thesis by (simp add: balanced_def)
qed

lemma split_at_two:
  assumes "k < j" and "j < length src"
  shows "src = take k src @ src ! k # take (j - Suc k) (drop (Suc k) src) @ src ! j #
           drop (Suc j) src"
proof -
  let ?r = "drop (Suc k) src"
  let ?j = "j - Suc k"
  from assms have k: "k < length src" by simp
  have a: "src = take k src @ src ! k # ?r"
    using k by (simp add: id_take_nth_drop[symmetric])
  have j': "?j < length ?r" using assms by simp
  have "?r = take ?j ?r @ ?r ! ?j # drop (Suc ?j) ?r"
    using j' by (rule id_take_nth_drop)
  moreover have "?r ! ?j = src ! j" using assms by simp
  moreover have "drop (Suc ?j) ?r = drop (Suc j) src" using assms by simp
  ultimately have "?r = take ?j ?r @ src ! j # drop (Suc j) src" by simp
  with a show ?thesis by metis
qed

lemma matching_close_exists:
  assumes "balanced src" and "k < length src" and "src ! k = CHR ''[''"
  shows "\<exists>j. matching src k j"
proof -
  let ?pre = "take k src" and ?rest = "drop (Suc k) src"
  have src: "src = ?pre @ CHR ''['' # ?rest"
    using assms(2,3) by (metis id_take_nth_drop)
  from assms(1) have nn: "nonneg_from 0 src" and dz: "depth_of src = 0"
    by (simp_all add: balanced_def)
  from nn src have "nonneg_from 0 ?pre"
    by (metis nonneg_from_append)
  then have dp: "0 \<le> depth_of ?pre" using nonneg_from_end[of 0 ?pre] by simp
  have "depth_of src = depth_of ?pre + 1 + depth_of ?rest"
    by (subst src) (simp add: bracket_weight_def)
  with dz dp have "depth_of ?rest + 0 < 0" by simp
  from first_return[OF this] obtain body post where
    b: "?rest = body @ CHR '']'' # post" "nonneg_from 0 body" "depth_of body = 0"
    by auto
  let ?j = "Suc k + length body"
  have len: "length ?rest = length body + Suc (length post)"
    by (subst b(1)) simp
  then have j: "?j < length src" by simp
  have "src ! ?j = ?rest ! length body"
    using j by (simp add: add.commute)
  also have "\<dots> = CHR '']''" by (subst b(1)) simp
  finally have sj: "src ! ?j = CHR '']''" .
  have "take (?j - Suc k) ?rest = body"
    by (subst b(1)) simp
  with b(2,3) j sj assms(3) have "matching src k ?j"
    by (simp add: matching_def balanced_def)
  then show ?thesis by blast
qed

lemma matching_open_exists:
  assumes "balanced src" and "j < length src" and "src ! j = CHR '']''"
  shows "\<exists>k. matching src k j"
proof -
  let ?t = "take j src" and ?post = "drop (Suc j) src"
  have src: "src = ?t @ CHR '']'' # ?post"
    using assms(2,3) by (metis id_take_nth_drop)
  from assms(1) have nn: "nonneg_from 0 src"
    by (simp add: balanced_def)
  from nn src have "nonneg_from (0 + depth_of ?t) (CHR '']'' # ?post)"
    by (metis nonneg_from_append)
  then have "0 \<le> depth_of ?t + bracket_weight (CHR '']'')"
    using nonneg_from_start[of "depth_of ?t + bracket_weight (CHR '']'')" ?post] by simp
  then have one: "1 \<le> depth_of ?t" by (simp add: bracket_weight_def)
  from last_rise[OF one order_refl] obtain pre body where
    b: "?t = pre @ CHR ''['' # body" "depth_of pre = depth_of ?t - 1" "nonneg_from 0 body"
    by blast
  from b(1,2) have dz: "depth_of body = 0"
    by (simp add: bracket_weight_def)
  let ?k = "length pre"
  have lt: "length ?t = j" using assms(2) by simp
  with b(1) have kj: "?k < j" and jk: "j - Suc ?k = length body"
    by (metis length_append length_Cons add_Suc_right less_add_Suc1,
        metis length_append length_Cons add_Suc_right add_Suc diff_add_inverse)
  have "src ! ?k = ?t ! ?k" using kj by simp
  also have "\<dots> = CHR ''[''" by (subst b(1)) simp
  finally have sk: "src ! ?k = CHR ''[''" .
  have "drop (Suc ?k) ?t = body" by (subst b(1)) simp
  then have "take (j - Suc ?k) (drop (Suc ?k) src) = body"
    by (metis drop_take jk take_all_iff lt length_drop order_refl take_drop diff_diff_left
        add.commute take_take min.idem)
  with kj assms(2,3) sk b(3) dz have "matching src ?k j"
    by (simp add: matching_def balanced_def)
  then show ?thesis by blast
qed

lemma drop5_open_block: "drop 5 (open_block d @ R) = 0x0f # 0x84 # u32_bytes d @ R"
  by (simp add: open_block_def cmp_cell_zero_def)

lemma drop5_enc_close:
  "drop 5 (enc_close f n @ R) = 0x0f # 0x85 # u32_bytes (back_disp f (n + 7)) @ R"
  by (simp add: enc_close_def cmp_cell_zero_def)

lemma matching_jumps_exact:
  assumes comp: "compile lk src (initial_state v) = Inr st" and m: "matching src k j"
  shows "jumps_exact lk v src (code st) k j"
proof -
  define pre where "pre = take k src"
  define body where "body = take (j - Suc k) (drop (Suc k) src)"
  define post where "post = drop (Suc j) src"
  from m have kj: "k < j" "j < length src" and sk: "src ! k = CHR ''[''"
    and sj: "src ! j = CHR '']''" and bal: "balanced body"
    by (simp_all add: matching_def body_def)
  from split_at_two[OF kj] sk sj
  have src: "src = pre @ CHR ''['' # body @ CHR '']'' # post"
    by (simp add: pre_def body_def post_def)
  have lp: "length pre = k" using kj by (simp add: pre_def)
  have lb: "Suc (k + length body) = j" using kj by (simp add: body_def)
  define a where "a = offset_at lk v src k"
  define b where "b = offset_at lk v src j"
  note d0 = loop_fixups_decomposed[OF comp src bal]
  have d: "drop a (code st) = open_block (fwd_disp (a + 7) (b + 11)) @ drop (a + 11) (code st)"
    "drop b (code st) = enc_close (a + 7) b @ drop (b + 11) (code st)"
    "a + 11 \<le> b" "b + 11 \<le> CODE_SIZE"
    using d0 by (simp_all only: lp lb a_def b_def)
  from d(3,4) have ab: "a \<le> b" and bc: "b \<le> CODE_SIZE" by simp_all
  have 1: "decode (drop a (code st)) = Some (Cmp_cell 0, 5)"
    by (subst d(1)) (simp add: open_block_def decode_cmp)
  have "drop (a + 5) (code st) = drop 5 (drop a (code st))"
    by (simp add: add.commute)
  also have "\<dots> = 0x0f # 0x84 # u32_bytes (fwd_disp (a + 7) (b + 11)) @ drop (a + 11) (code st)"
    by (subst d(1)) (rule drop5_open_block)
  finally have 2: "decode (drop (a + 5) (code st)) = Some (Je (fwd_disp (a + 7) (b + 11)), 6)"
    by (simp only: decode_je)
  have 3: "decode (drop b (code st)) = Some (Cmp_cell 0, 5)"
    by (subst d(2)) (simp add: enc_close_def decode_cmp)
  have "drop (b + 5) (code st) = drop 5 (drop b (code st))"
    by (simp add: add.commute)
  also have "\<dots> = 0x0f # 0x85 # u32_bytes (back_disp (a + 7) (b + 7)) @ drop (b + 11) (code st)"
    by (subst d(2)) (rule drop5_enc_close)
  finally have 4: "decode (drop (b + 5) (code st)) = Some (Jne (back_disp (a + 7) (b + 7)), 6)"
    by (simp only: decode_jne)
  show ?thesis
    unfolding jumps_exact_def a_def[symmetric] b_def[symmetric] Let_def
    using 1 2 3 4 sint_fwd_disp[OF ab bc] sint_back_disp[OF ab bc]
    by simp
qed

subsection \<open>Decimal numerals, counters of the scanners, rejected sources\<close>

lemma of_char_digit: "k < 10 \<Longrightarrow> (of_char (char_of (48 + k :: nat)) :: nat) = 48 + k"
  by simp

lemma show_nat_digits: "list_all is_digit (show_nat n)"
proof (induction n rule: show_nat.induct)
  case (1 n)
  show ?case
  proof (cases "n < 10")
    case True
    then show ?thesis
      by (subst show_nat.simps) (simp add: is_digit_def)
  next
    case False
    have m: "n mod 10 < 10" by simp
    have d: "is_digit (char_of (48 + n mod 10))"
      unfolding is_digit_def of_char_digit[OF m] using m by simp
    from 1[OF False] False d show ?thesis
      by (subst show_nat.simps) (simp del: show_nat.simps)
  qed
qed

lemma show_nat_reads_back: "read_digits (show_nat n) = n"
proof (induction n rule: show_nat.induct)
  case (1 n)
  show ?case
  proof (cases "n < 10")
    case True
    then show ?thesis
      by (subst show_nat.simps) (simp add: read_digits_def)
  next
    case False
    have m: "n mod 10 < 10" by simp
    from 1[OF False] False m show ?thesis
      by (subst show_nat.simps)
         (simp add: read_digits_def of_char_digit del: show_nat.simps)
  qed
qed

lemma show_nat_1: "show_nat 1 = ''1''"
  by code_simp

lemma show_nat_Suc_0: "show_nat (Suc 0) = ''1''"
  by code_simp

lemma show_nat_3: "show_nat 3 = ''3''"
  by code_simp

lemma show_nat_12: "show_nat 12 = ''12''"
  by code_simp

lemma show_nat_256: "show_nat 256 = ''256''"
  by code_simp

lemma show_nat_257: "show_nat 257 = ''257''"
  by code_simp

lemma validate_loop_counters:
  "validate_loop a i d m f = Inr (d', m', f') \<Longrightarrow> 0 \<le> d \<Longrightarrow>
   0 \<le> d' \<and> d' \<le> d + int (length a) \<and> m \<le> m' \<and> m' \<le> max m (d + int (length a))"
proof (induction a arbitrary: i d m f)
  case Nil
  then show ?case by auto
next
  case (Cons c cs)
  consider (opn) "c = CHR ''[''" | (cls) "c = CHR '']''" | (other) "c \<noteq> CHR ''[''" "c \<noteq> CHR '']''"
    by auto
  then show ?case
  proof cases
    case opn
    let ?m = "if d + 1 > m then d + 1 else m"
    from Cons.prems opn have
      "validate_loop cs (Suc i) (d + 1) ?m (if d = 0 then i else f) = Inr (d', m', f')"
      by simp
    from Cons.IH[OF this] Cons.prems(2) show ?thesis
      by (auto split: if_splits)
  next
    case cls
    with Cons.prems have d0: "d \<noteq> 0"
      and r: "validate_loop cs (Suc i) (d - 1) m f = Inr (d', m', f')"
      by (auto split: if_splits)
    from Cons.IH[OF r] Cons.prems(2) d0 show ?thesis by auto
  next
    case other
    with Cons.prems have "validate_loop cs (Suc i) d m f = Inr (d', m', f')" by simp
    from Cons.IH[OF this Cons.prems(2)] show ?thesis by auto
  qed
qed

lemma scan_cell_delta_bound:
  "\<bar>snd (snd (scan_cell s i d)) - d\<bar> \<le> int (length s)"
proof (induction s arbitrary: i d)
  case Nil
  show ?case by simp
next
  case (Cons c cs)
  show ?case
    using Cons.IH[of "Suc i" "d + 1"] Cons.IH[of "Suc i" "d - 1"] by auto
qed

lemma scan_ptr_delta_bound:
  "\<bar>snd (snd (scan_ptr s i d)) - d\<bar> \<le> int (length s)"
proof (induction s arbitrary: i d)
  case Nil
  show ?case by simp
next
  case (Cons c cs)
  show ?case
    using Cons.IH[of "Suc i" "d + 1"] Cons.IH[of "Suc i" "d - 1"] by auto
qed

lemma main_inline:
  "src_malloc_ok os \<Longrightarrow> main fuel os prog [''-e'', s] = validate_and_build fuel os False s"
  by (simp add: main_def)

lemma main_rejected:
  "src_malloc_ok os \<Longrightarrow> validate_brackets s = Inl e \<Longrightarrow>
   main fuel os prog [''-e'', s] = ([Stderr (validate_msg e)], Exit 1)"
  by (simp add: main_inline validate_and_build_def)

lemma validate_deep_balanced:
  assumes "balanced s" and "257 \<le> nesting_depth s"
  shows "validate_brackets s = Inl (Nesting_exceeds (nesting_depth s))"
  using validate_balanced[OF assms(1), of 0 0] assms(2)
  by (auto simp: validate_brackets_def MAX_NESTING_def)

subsection \<open>A script that fills the code buffer\<close>

lemma ops_dots: "ops (replicate n (CHR ''.'')) j = replicate n Op_putchar"
  by (induction n arbitrary: j) (simp_all add: ops.simps)

lemma length_enc_putchar [simp]: "length (enc_putchar lk) = 17"
  by (simp add: enc_putchar_def)

lemma run_ops_putchars:
  assumes "length (code st) + 17 * n \<le> CODE_SIZE"
  shows "\<exists>st'. run_ops lk (replicate n Op_putchar) fx st = Inr (fx, st') \<and>
           length (code st') = length (code st) + 17 * n \<and> verbose st' = verbose st"
  using assms
proof (induction n arbitrary: st)
  case 0
  then show ?case by simp
next
  case (Suc n)
  from Suc.prems have "length (code st) + length (enc_putchar lk) \<le> CODE_SIZE" by simp
  with emit_putchar_emits[of lk st] obtain s1 where
    s1: "emit_putchar lk st = Inr s1" "code s1 = code st @ enc_putchar lk" "verbose s1 = verbose st"
    by (auto simp: emits_def)
  from Suc.prems s1(2) have "length (code s1) + 17 * n \<le> CODE_SIZE" by simp
  from Suc.IH[OF this] obtain st' where
    "run_ops lk (replicate n Op_putchar) fx s1 = Inr (fx, st')"
    "length (code st') = length (code s1) + 17 * n" "verbose st' = verbose s1"
    by blast
  with s1 show ?case by simp
qed

lemma emit_putchar_overflow:
  "CODE_SIZE < length (code st) + 5 \<Longrightarrow>
   emit_putchar lk st = Inl (Buffer_overflow (length (code st)) 5)"
  by (simp add: emit_putchar_def emit_defs)

lemma no_brackets_replicate: "c \<noteq> CHR ''['' \<Longrightarrow> c \<noteq> CHR '']'' \<Longrightarrow> no_brackets (replicate n c)"
  by (auto simp: no_brackets_def)

lemma no_brackets_validate: "no_brackets w \<Longrightarrow> validate_brackets w = Inr ()"
proof -
  assume nb: "no_brackets w"
  from no_brackets_nonneg[OF nb, of 0 "[]"] have nn: "nonneg_from 0 w" by simp
  from no_brackets_max[OF nb, of 0 "[]"] have mx: "max_from 0 w = 0" by simp
  from no_brackets_depth[OF nb] nn have "balanced w" by (simp add: balanced_def)
  then show ?thesis
    by (rule validate_accepts) (simp add: nesting_depth_def mx)
qed

lemma compile_dots_overflow:
  "compile lk (replicate 61681 (CHR ''.'')) (initial_state v) = Inl (Buffer_overflow 1048574 5)"
proof -
  have n: "(61681::nat) = Suc 61680" by simp
  have "replicate 61681 Op_putchar = replicate 61680 Op_putchar @ [Op_putchar]"
    unfolding n by (simp only: replicate_Suc replicate_append_same)
  then have o: "ops (replicate 61681 (CHR ''.'')) 0 = replicate 61680 Op_putchar @ [Op_putchar]"
    by (simp only: ops_dots)
  have "length (code (after_prologue v)) + 17 * 61680 \<le> CODE_SIZE"
    by (simp add: CODE_SIZE_def)
  from run_ops_putchars[OF this, of lk "[]"] obtain st' where
    st': "run_ops lk (replicate 61680 Op_putchar) [] (after_prologue v) = Inr ([], st')"
    "length (code st') = 1048574"
    by auto
  have "emit_putchar lk st' = Inl (Buffer_overflow (length (code st')) 5)"
    by (rule emit_putchar_overflow) (simp add: st'(2) CODE_SIZE_def)
  then have "loop_result lk v (replicate 61681 (CHR ''.'')) = Inl (Buffer_overflow 1048574 5)"
    by (simp add: loop_result_run_ops o run_ops_append st')
  then show ?thesis
    by (simp add: compile_loop_result)
qed

lemma char_of_digits:
  "char_of (48::nat) = CHR ''0''" "char_of (49::nat) = CHR ''1''" "char_of (50::nat) = CHR ''2''"
  "char_of (51::nat) = CHR ''3''" "char_of (52::nat) = CHR ''4''" "char_of (53::nat) = CHR ''5''"
  "char_of (54::nat) = CHR ''6''" "char_of (55::nat) = CHR ''7''" "char_of (56::nat) = CHR ''8''"
  "char_of (57::nat) = CHR ''9''"
  by code_simp+

lemma show_nat_overflow: "show_nat 1048574 = ''1048574''" "show_nat 5 = ''5''"
  by (simp_all add: char_of_digits)

lemma main_dots_overflow:
  assumes "src_malloc_ok os" "mmap_code_ok os" "mmap_tape_ok os"
  shows "main fuel os prog [''-e'', replicate 61681 (CHR ''.'')] =
     ([Mmap Code_buffer rw True, Mmap Tape_buffer rw True, Code_written,
       Stderr ''error: code buffer overflow (1048574 bytes used, need 5 more)\<newline>''],
      Exit 1)"
proof -
  have v: "validate_brackets (replicate 61681 (CHR ''.'')) = Inr ()"
    by (intro no_brackets_validate no_brackets_replicate) simp_all
  from assms show ?thesis
    by (simp add: main_def validate_and_build_def v build_def compile_dots_overflow
        show_nat_overflow del: show_nat.simps)
qed

lemma compile_plus:
  "\<exists>st. compile lk ''+'' (initial_state v) = Inr st \<and> verbose st = v"
proof -
  have o: "ops ''+'' 0 = [Op_add_cell 1]"
    using ops_cell_run[of "''+''" "[]" 0] by (simp add: ends_run_def run_delta_def ops.simps)
  have "length (code (after_prologue v)) + length (enc_add_cell 1) \<le> CODE_SIZE"
    by (simp add: enc_add_cell_def CODE_SIZE_def)
  with emit_add_cell_emits[of 1 "after_prologue v"] obtain s1 where
    s1: "emit_add_cell 1 (after_prologue v) = Inr s1" "length (code s1) = 18"
      "verbose s1 = v"
    by (auto simp: emits_def enc_add_cell_def)
  with o have lr: "loop_result lk v ''+'' = Inr ([], s1)"
    by (simp add: loop_result_run_ops)
  have "length (code s1) + length epilogue \<le> CODE_SIZE"
    by (simp add: s1(2) CODE_SIZE_def)
  with emit_epilogue_emits[of s1] obtain s2 where
    s2: "emit_epilogue s1 = Inr s2" "verbose s2 = v"
    by (auto simp: emits_def s1(3))
  then show ?thesis
    by (simp add: compile_loop_result lr)
qed

subsection \<open>The monitor of the code buffer\<close>

lemma wx_run_append:
  "wx_run ph (a @ b) = (case wx_run ph a of None \<Rightarrow> None | Some ph' \<Rightarrow> wx_run ph' b)"
  by (induction a arbitrary: ph) (auto split: option.splits)

lemma wx_run_take: "wx_run ph t = Some ph' \<Longrightarrow> \<exists>q. wx_run ph (take n t) = Some q"
  using wx_run_append[of ph "take n t" "drop n t"]
  by (auto split: option.splits)

lemma wx_step_prot:
  "wx_step ph e = Some ph' \<Longrightarrow> prot_step (prot_of ph) e = prot_of ph'"
  by (cases "(ph, e)" rule: wx_step.cases; cases ph) (auto split: if_splits)

lemma wx_run_prot:
  "wx_run ph t = Some ph' \<Longrightarrow> foldl prot_step (prot_of ph) t = prot_of ph'"
proof (induction t arbitrary: ph)
  case Nil
  then show ?case by simp
next
  case (Cons e t)
  then obtain q where q: "wx_step ph e = Some q" "wx_run q t = Some ph'"
    by (auto split: option.splits)
  from Cons.IH[OF q(2)] wx_step_prot[OF q(1)] show ?case by simp
qed

lemma prot_of_not_wx: "\<not> writable_and_executable (prot_of ph)"
  by (cases ph) (simp_all add: writable_and_executable_def rw_def rx_def)

lemma wx_run_never_wx:
  assumes "wx_run Unmapped t = Some ph"
  shows "\<not> writable_and_executable (code_prot (take n t))"
proof -
  from wx_run_take[OF assms, of n] obtain q where "wx_run Unmapped (take n t) = Some q" ..
  from wx_run_prot[OF this] show ?thesis
    by (simp add: code_prot_def prot_of_not_wx)
qed

lemma wx_step_flip:
  "wx_step ph e = Some ph' \<Longrightarrow>
   (is_flip e \<longrightarrow> ph = Written \<and> ph' = Executable) \<and>
   (e = Jit_call \<longrightarrow> ph = Executable) \<and>
   (ph = Executable \<longrightarrow> ph' = Executable \<or> ph' = Released) \<and>
   (ph = Released \<longrightarrow> ph' = Released)"
  by (cases "(ph, e)" rule: wx_step.cases; cases ph) (auto split: if_splits)


lemma wx_run_late:
  "wx_run ph t = Some ph' \<Longrightarrow> ph = Executable \<or> ph = Released \<Longrightarrow>
   filter is_flip t = [] \<and> (ph = Released \<longrightarrow> Jit_call \<notin> set t)"
proof (induction t arbitrary: ph)
  case Nil
  then show ?case by simp
next
  case (Cons e t)
  then obtain q where q: "wx_step ph e = Some q" "wx_run q t = Some ph'"
    by (auto split: option.splits)
  from wx_step_flip[OF q(1)] Cons.prems(2) have
    a: "\<not> is_flip e" "q = Executable \<or> q = Released" "ph = Released \<longrightarrow> q = Released"
      "ph = Released \<longrightarrow> e \<noteq> Jit_call"
    by auto
  from Cons.IH[OF q(2) a(2)] a show ?case by auto
qed

lemma wx_run_flips:
  "wx_run ph t = Some ph' \<Longrightarrow>
   length (filter is_flip t) \<le> 1 \<and>
   (Jit_call \<in> set t \<longrightarrow> ph \<noteq> Executable \<longrightarrow> length (filter is_flip t) = 1)"
proof (induction t arbitrary: ph)
  case Nil
  then show ?case by simp
next
  case (Cons e t)
  then obtain q where q: "wx_step ph e = Some q" "wx_run q t = Some ph'"
    by (auto split: option.splits)
  note s = wx_step_flip[OF q(1)]
  show ?case
  proof (cases "is_flip e")
    case True
    with s have "q = Executable" by simp
    from wx_run_late[OF q(2)] this have "filter is_flip t = []" by simp
    with True show ?thesis by simp
  next
    case False
    show ?thesis
    proof (cases "q = Executable")
      case True
      with s False have "ph = Executable"
        using q(1) by (cases "(ph, e)" rule: wx_step.cases; cases ph) (auto split: if_splits)
      with Cons.IH[OF q(2)] False show ?thesis by simp
    next
      case nq: False
      from s have "e = Jit_call \<longrightarrow> ph = Executable" by simp
      with Cons.IH[OF q(2)] False nq show ?thesis by auto
    qed
  qed
qed


lemma wx_run_messages: "\<forall>e\<in>set t. is_message e \<Longrightarrow> wx_run ph t = Some ph"
proof (induction t)
  case Nil
  show ?case by simp
next
  case (Cons e t)
  then have "is_message e" by simp
  then have "wx_step ph e = Some ph" by (cases e) simp_all
  with Cons show ?case by simp
qed

lemma parse_args_messages:
  "parse_args prog args opts = Inl evs \<Longrightarrow> \<forall>e\<in>set evs. is_message e"
proof (induction prog args opts rule: parse_args.induct)
  case (1 prog opts)
  then show ?case by simp
next
  case (2 prog a as opts)
  then show ?case
    by (auto split: if_splits list.splits)
qed

lemma finish_accepted: "\<exists>ph. wx_run Written (fst (finish fuel os st)) = Some ph"
proof -
  have l: "wx_run Written ((if verbose st then [Verbose_listing n (vlog st)] else []) @ t) =
           wx_run Written t" for n t
    by simp
  show ?thesis
    unfolding finish_def Let_def
    by (cases "mprotect_ok os";
        cases "jit_entry fuel (link os) (code st) (tape_address os) (stdin_bytes os)")
       (simp_all add: l del: append.simps)
qed

lemma maps_accepted:
  "wx_run Unmapped ([Mmap Code_buffer rw True, Mmap Tape_buffer rw True, Code_written] @ t) =
   wx_run Written t"
  by simp

lemma build_accepted: "\<exists>ph. wx_run Unmapped (fst (build fuel os v src)) = Some ph"
proof (cases "mmap_code_ok os \<and> mmap_tape_ok os")
  case False
  then show ?thesis by (auto simp: build_def)
next
  case ok: True
  show ?thesis
  proof (cases "v \<and> \<not> vlog_realloc_ok os")
    case True
    with ok show ?thesis by (simp add: build_def)
  next
    case False
    then have nf: "(v \<and> \<not> vlog_realloc_ok os) = False" by simp
    show ?thesis
    proof (cases "compile (link os) src (initial_state v)")
      case (Inl e)
      with ok show ?thesis
        unfolding build_def Let_def nf
        by (cases e) (simp_all del: append.simps add: maps_accepted)
    next
      case (Inr st)
      with ok finish_accepted[of fuel os st] show ?thesis
        unfolding build_def Let_def nf
        by (simp del: append.simps add: maps_accepted)
    qed
  qed
qed

lemma validate_and_build_accepted:
  "\<exists>ph. wx_run Unmapped (fst (validate_and_build fuel os v src)) = Some ph"
  using build_accepted[of fuel os v src]
  by (cases "validate_brackets src") (simp_all add: validate_and_build_def)

lemma read_source_messages: "read_source os f = Inl evs \<Longrightarrow> \<forall>e\<in>set evs. is_message e"
  by (auto simp: read_source_def split: file_result.splits)

lemma main_accepted: "\<exists>ph. wx_run Unmapped (fst (main fuel os prog args)) = Some ph"
proof (cases "parse_args prog args \<lparr>inline_code = None, filename = None, opt_verbose = False\<rparr>")
  case (Inl evs)
  from parse_args_messages[OF Inl] have "wx_run Unmapped evs = Some Unmapped"
    by (rule wx_run_messages)
  with Inl show ?thesis by (simp add: main_def)
next
  case (Inr opts)
  show ?thesis
  proof (cases "inline_code opts")
    case None
    show ?thesis
    proof (cases "filename opts")
      case n2: None
      with None Inr show ?thesis by (simp add: main_def)
    next
      case (Some f)
      show ?thesis
      proof (cases "read_source os f")
        case (Inl evs)
        from read_source_messages[OF Inl] have "wx_run Unmapped evs = Some Unmapped"
          by (rule wx_run_messages)
        with Inl None Some Inr show ?thesis by (simp add: main_def)
      next
        case r: (Inr src)
        with None Some Inr validate_and_build_accepted[of fuel os "opt_verbose opts" src]
        show ?thesis by (simp add: main_def)
      qed
    qed
  next
    case (Some s)
    show ?thesis
    proof (cases "filename opts")
      case None
      with Some Inr validate_and_build_accepted[of fuel os "opt_verbose opts" s]
      show ?thesis by (simp add: main_def)
    next
      case s2: (Some f)
      with Some Inr show ?thesis by (simp add: main_def)
    qed
  qed
qed


lemma wx_step_early:
  "wx_step ph e = Some q \<Longrightarrow> ph = Unmapped \<or> ph = Mapped \<or> ph = Written \<Longrightarrow> \<not> is_flip e \<Longrightarrow>
   (q = Unmapped \<or> q = Mapped \<or> q = Written \<or> q = Released) \<and> e \<noteq> Jit_call"
  by (cases "(ph, e)" rule: wx_step.cases; cases ph) (auto split: if_splits)

lemma wx_step_written: "wx_step ph Code_written = Some q \<Longrightarrow> ph = Mapped \<or> ph = Written"
  by (simp split: if_splits)

lemma wx_run_after_flip:
  "wx_run ph t = Some ph' \<Longrightarrow> ph = Executable \<or> ph = Released \<Longrightarrow> Code_written \<notin> set t"
proof (induction t arbitrary: ph)
  case Nil
  then show ?case by simp
next
  case (Cons e t)
  then obtain q where q: "wx_step ph e = Some q" "wx_run q t = Some ph'"
    by (auto split: option.splits)
  from wx_step_flip[OF q(1)] Cons.prems(2) have a: "q = Executable \<or> q = Released"
    by auto
  from wx_step_written[of ph q] q(1) Cons.prems(2) have "e \<noteq> Code_written" by auto
  with Cons.IH[OF q(2) a] show ?case by simp
qed

lemma wx_run_before_flip:
  "wx_run ph t = Some ph' \<Longrightarrow> ph = Unmapped \<or> ph = Mapped \<or> ph = Written \<Longrightarrow>
   filter is_flip t = [] \<Longrightarrow> Jit_call \<notin> set t"
proof (induction t arbitrary: ph)
  case Nil
  then show ?case by simp
next
  case (Cons e t)
  then obtain q where q: "wx_step ph e = Some q" "wx_run q t = Some ph'"
    by (auto split: option.splits)
  from Cons.prems(3) have nf: "\<not> is_flip e" "filter is_flip t = []"
    by (auto split: if_splits)
  from wx_step_early[OF q(1) Cons.prems(2) nf(1)] have
    a: "q = Unmapped \<or> q = Mapped \<or> q = Written \<or> q = Released" "e \<noteq> Jit_call"
    by simp_all
  show ?case
  proof (cases "q = Released")
    case True
    with wx_run_late[OF q(2)] a(2) show ?thesis by simp
  next
    case False
    with a(1) have "q = Unmapped \<or> q = Mapped \<or> q = Written" by simp
    from Cons.IH[OF q(2) this nf(2)] a(2) show ?thesis by simp
  qed
qed

lemma wx_run_released: "wx_run Released t = Some ph' \<Longrightarrow> ph' = Released"
proof (induction t)
  case Nil
  then show ?case by simp
next
  case (Cons e t)
  then obtain q where q: "wx_step Released e = Some q" "wx_run q t = Some ph'"
    by (auto split: option.splits)
  from wx_step_flip[OF q(1)] have "q = Released" by simp
  with Cons.IH q(2) show ?case by simp
qed

lemma wx_step_unwritten:
  "wx_step ph e = Some q \<Longrightarrow> ph = Unmapped \<or> ph = Mapped \<Longrightarrow> e \<noteq> Code_written \<Longrightarrow>
   q = Unmapped \<or> q = Mapped \<or> q = Released"
  by (cases "(ph, e)" rule: wx_step.cases; cases ph) (auto split: if_splits)

lemma wx_run_written:
  "wx_run ph t = Some Written \<Longrightarrow> ph = Unmapped \<or> ph = Mapped \<Longrightarrow> Code_written \<in> set t"
proof (induction t arbitrary: ph)
  case Nil
  then show ?case by auto
next
  case (Cons e t)
  then obtain q where q: "wx_step ph e = Some q" "wx_run q t = Some Written"
    by (auto split: option.splits)
  show ?case
  proof (cases "e = Code_written")
    case True
    then show ?thesis by simp
  next
    case False
    from wx_step_unwritten[OF q(1) Cons.prems(2) False] have
      a: "q = Unmapped \<or> q = Mapped \<or> q = Released" .
    show ?thesis
    proof (cases "q = Released")
      case True
      with wx_run_released[of t Written] q(2) show ?thesis by simp
    next
      case nr: False
      with a have "q = Unmapped \<or> q = Mapped" by simp
      from Cons.IH[OF q(2) this] show ?thesis by simp
    qed
  qed
qed

lemma wx_run_split:
  assumes "wx_run Unmapped (a @ e # b) = Some ph" and "is_flip e"
  shows "Code_written \<in> set a \<and> Jit_call \<notin> set a \<and> Code_written \<notin> set b \<and>
         filter is_flip a = [] \<and> filter is_flip b = [] \<and>
         code_prot a = rw \<and> code_prot (a @ [e]) = rx"
proof -
  from assms(1) obtain q q' where q: "wx_run Unmapped a = Some q" "wx_step q e = Some q'"
    "wx_run q' b = Some ph"
    by (auto simp: wx_run_append split: option.splits)
  from wx_step_flip[OF q(2)] assms(2) have w: "q = Written" "q' = Executable" by simp_all
  from wx_run_flips[OF assms(1)] assms(2) have f: "filter is_flip a = []" "filter is_flip b = []"
    by simp_all
  from wx_run_before_flip[OF q(1) _ f(1)] have 1: "Jit_call \<notin> set a" by simp
  from wx_run_after_flip[OF q(3)] w(2) have 2: "Code_written \<notin> set b" by simp
  from wx_run_prot[OF q(1)] w(1) have 3: "code_prot a = rw" by (simp add: code_prot_def)
  have "wx_run Unmapped (a @ [e]) = Some Executable"
    using q(1,2) w by (simp add: wx_run_append)
  from wx_run_prot[OF this] have 4: "code_prot (a @ [e]) = rx" by (simp add: code_prot_def)
  from wx_run_written[of Unmapped a] q(1) w(1) have 5: "Code_written \<in> set a" by simp
  from 1 2 3 4 5 f show ?thesis by simp
qed

lemma compile_130_quiet:
  "\<exists>st. compile lk (replicate 130 (CHR ''+'')) (initial_state False) = Inr st \<and>
     code st = prologue @ [0x43, 0x80, 0x2c, 0x2c, 126] @ epilogue \<and> \<not> verbose st"
proof -
  have "compile_loop lk (replicate 130 (CHR ''+'') @ []) 0 [] s =
        bind_err (emit_add_cell (- 126) s) (\<lambda>s'. Inr ([], s'))" for s
    by (subst compile_loop_cell_run)
       (simp_all add: ends_run_def run_delta_replicate)
  then show ?thesis
    by (simp add: compile_def emit_prologue_def emit_epilogue_def emit_add_cell_def emit_defs
        initial_state_def prologue_def epilogue_def CODE_SIZE_def)
qed

lemma main_130:
  "main 11 example_os ''bf'' [''-e'', replicate 130 (CHR ''+'')] =
     ([Mmap Code_buffer rw True, Mmap Tape_buffer rw True, Code_written,
       Mprotect Code_buffer rx True, Jit_call, Stdout [],
       Munmap Tape_buffer, Munmap Code_buffer], Exit 0)"
proof -
  have v: "validate_brackets (replicate 130 (CHR ''+'')) = Inr ()"
    by (rule no_brackets_validate) (auto simp: no_brackets_def)
  obtain st where st: "compile example_link (replicate 130 (CHR ''+'')) (initial_state False) = Inr st"
    "code st = prologue @ [0x43, 0x80, 0x2c, 0x2c, 126] @ epilogue" "\<not> verbose st"
    using compile_130_quiet by blast
  obtain m where m: "run 11 example_link (code st) (entry_state 0x7000 []) = Some m"
    "outp m = []"
    using run_130[of example_link "0x7000" "[]"] st(2) by auto
  show ?thesis
    by (simp add: main_def example_os_def validate_and_build_def v build_def st(1,3)
        finish_def jit_entry_def m)
qed

subsection \<open>Executing the code of a run\<close>

lemma scast8: "- 128 \<le> n \<Longrightarrow> n < 128 \<Longrightarrow> (scast (word_of_int n :: u8) :: u64) = word_of_int n"
  by (simp add: signed_of_int signed_take_bit_int_eq_self)

lemma scast32:
  "- (2 ^ 31) \<le> n \<Longrightarrow> n < 2 ^ 31 \<Longrightarrow> (scast (word_of_int n :: u32) :: u64) = word_of_int n"
  by (simp add: signed_of_int signed_take_bit_int_eq_self)

lemma exec_straight_Nil [simp]: "exec_straight lk [] m = Some m"
  by (simp add: exec_straight.simps)

lemma exec_inc_cell:
  "exec_straight lk ([0x43, 0xfe, 0x04, 0x2c] @ bs) m =
   exec_straight lk bs (set_cell (mem m (cell_addr m) + 1) m)"
  by (subst exec_straight.simps) (simp add: decode_def starts_def)

lemma exec_dec_cell:
  "exec_straight lk ([0x43, 0xfe, 0x0c, 0x2c] @ bs) m =
   exec_straight lk bs (set_cell (mem m (cell_addr m) - 1) m)"
  by (subst exec_straight.simps) (simp add: decode_def starts_def)

lemma exec_add_cell:
  "exec_straight lk ([0x43, 0x80, 0x04, 0x2c, k] @ bs) m =
   exec_straight lk bs (set_cell (mem m (cell_addr m) + k) m)"
  by (subst exec_straight.simps) (simp add: decode_def starts_def)

lemma exec_sub_cell:
  "exec_straight lk ([0x43, 0x80, 0x2c, 0x2c, k] @ bs) m =
   exec_straight lk bs (set_cell (mem m (cell_addr m) - k) m)"
  by (subst exec_straight.simps) (simp add: decode_def starts_def)

lemma exec_inc_r13:
  "exec_straight lk ([0x49, 0xff, 0xc5] @ bs) m = exec_straight lk bs (set_r13 (r13 m + 1) m)"
  by (subst exec_straight.simps) (simp add: decode_def starts_def)

lemma exec_dec_r13:
  "exec_straight lk ([0x49, 0xff, 0xcd] @ bs) m = exec_straight lk bs (set_r13 (r13 m - 1) m)"
  by (subst exec_straight.simps) (simp add: decode_def starts_def)

lemma exec_add_r13_imm8:
  "exec_straight lk ([0x49, 0x83, 0xc5, k] @ bs) m =
   exec_straight lk bs (set_r13 (r13 m + scast k) m)"
  by (subst exec_straight.simps) (simp add: decode_def starts_def)

lemma exec_sub_r13_imm8:
  "exec_straight lk ([0x49, 0x83, 0xed, k] @ bs) m =
   exec_straight lk bs (set_r13 (r13 m - scast k) m)"
  by (subst exec_straight.simps) (simp add: decode_def starts_def)

lemma exec_add_r13_imm32:
  "exec_straight lk (([0x49, 0x81, 0xc5] @ u32_bytes v) @ bs) m =
   exec_straight lk bs (set_r13 (r13 m + scast v) m)"
  by (subst exec_straight.simps) (simp add: decode_def starts_def le32_u32_bytes)

lemma exec_sub_r13_imm32:
  "exec_straight lk (([0x49, 0x81, 0xed] @ u32_bytes v) @ bs) m =
   exec_straight lk bs (set_r13 (r13 m - scast v) m)"
  by (subst exec_straight.simps) (simp add: decode_def starts_def le32_u32_bytes)

text \<open>The effect of the instruction that \<open>emit_add_cell\<close> and \<open>emit_move_ptr\<close> encode.\<close>

lemma exec_enc_add_cell:
  assumes "- 128 \<le> n" "n \<le> 128" "n \<noteq> 0"
  shows "exec_straight lk (enc_add_cell n @ bs) m =
         exec_straight lk bs (set_cell (mem m (cell_addr m) + word_of_int n) m)"
proof -
  consider (one) "n = 1" | (mone) "n = - 1" | (pos) "n > 1" | (neg) "n < - 1"
    using assms(3) by linarith
  then show ?thesis
  proof cases
    case one
    then show ?thesis
      using exec_inc_cell[of lk bs m] by (simp add: enc_add_cell_def)
  next
    case mone
    then show ?thesis
      using exec_dec_cell[of lk bs m] by (simp add: enc_add_cell_def)
  next
    case pos
    then show ?thesis
      using exec_add_cell[of lk "word_of_int n" bs m] by (simp add: enc_add_cell_def)
  next
    case neg
    then show ?thesis
      using exec_sub_cell[of lk "word_of_int (- n)" bs m] by (simp add: enc_add_cell_def)
  qed
qed

lemma exec_enc_move_ptr:
  assumes "- (2 ^ 31) < n" "n < 2 ^ 31" "n \<noteq> 0"
  shows "exec_straight lk (enc_move_ptr n @ bs) m =
         exec_straight lk bs (set_r13 (r13 m + word_of_int n) m)"
proof -
  consider (one) "n = 1" | (mone) "n = - 1" | (pos8) "n > 1" "n \<le> 127"
    | (neg8) "n < - 1" "- 127 \<le> n" | (pos32) "n > 127" | (neg32) "n < - 127"
    using assms(3) by linarith
  then show ?thesis
  proof cases
    case one
    then show ?thesis
      using exec_inc_r13[of lk bs m] by (simp add: enc_move_ptr_def)
  next
    case mone
    then show ?thesis
      using exec_dec_r13[of lk bs m] by (simp add: enc_move_ptr_def)
  next
    case pos8
    then show ?thesis
      using exec_add_r13_imm8[of lk "word_of_int n" bs m] scast8[of n]
      by (simp add: enc_move_ptr_def)
  next
    case neg8
    then show ?thesis
      using exec_sub_r13_imm8[of lk "word_of_int (- n)" bs m] scast8[of "- n"]
      by (simp add: enc_move_ptr_def)
  next
    case pos32
    then show ?thesis
      using exec_add_r13_imm32[of lk "word_of_int n" bs m] scast32[of n] assms
      by (simp add: enc_move_ptr_def)
  next
    case neg32
    then show ?thesis
      using exec_sub_r13_imm32[of lk "word_of_int (- n)" bs m] scast32[of "- n"] assms
      by (simp add: enc_move_ptr_def)
  qed
qed


lemma set_cell_twice:
  "set_cell x (set_cell y m) = set_cell x m" "cell_addr (set_cell y m) = cell_addr m"
  "mem (set_cell y m) (cell_addr m) = y"
  by (simp_all add: set_cell_def cell_addr_def)

lemma set_r13_twice: "set_r13 x (set_r13 y m) = set_r13 x m" "r13 (set_r13 y m) = y"
  by (simp_all add: set_r13_def)

lemma run_delta_Cons:
  "run_delta up (c # cs) = (if c = up then 1 else - 1) + run_delta up cs"
  by (simp add: run_delta_def)

lemma run_delta_bound: "\<bar>run_delta up r\<bar> \<le> int (length r)"
  by (induction r) (auto simp: run_delta_def)

lemma exec_naive_cell:
  "exec_straight lk (naive_cell r @ bs) m =
   exec_straight lk bs
     (if r = [] then m
      else set_cell (mem m (cell_addr m) + word_of_int (run_delta (CHR ''+'') r)) m)"
proof (induction r arbitrary: m)
  case Nil
  show ?case by (simp add: naive_cell_def)
next
  case (Cons c cs)
  define w :: int where "w = (if c = CHR ''+'' then 1 else - 1)"
  have w: "- 128 \<le> w" "w \<le> 128" "w \<noteq> 0" by (simp_all add: w_def)
  have "naive_cell (c # cs) @ bs = enc_add_cell w @ (naive_cell cs @ bs)"
    by (simp add: naive_cell_def w_def)
  then have "exec_straight lk (naive_cell (c # cs) @ bs) m =
      exec_straight lk (naive_cell cs @ bs)
        (set_cell (mem m (cell_addr m) + word_of_int w) m)"
    by (simp only: exec_enc_add_cell[OF w])
  also have "\<dots> = exec_straight lk bs
     (set_cell (mem m (cell_addr m) + word_of_int (run_delta (CHR ''+'') (c # cs))) m)"
    unfolding Cons.IH
    by (simp add: set_cell_twice run_delta_Cons w_def run_delta_def add.assoc)
  finally show ?case by simp
qed

lemma exec_naive_ptr:
  "exec_straight lk (naive_ptr r @ bs) m =
   exec_straight lk bs
     (if r = [] then m else set_r13 (r13 m + word_of_int (run_delta (CHR ''>'') r)) m)"
proof (induction r arbitrary: m)
  case Nil
  show ?case by (simp add: naive_ptr_def)
next
  case (Cons c cs)
  define w :: int where "w = (if c = CHR ''>'' then 1 else - 1)"
  have w: "- (2 ^ 31) < w" "w < 2 ^ 31" "w \<noteq> 0" by (simp_all add: w_def)
  have "naive_ptr (c # cs) @ bs = enc_move_ptr w @ (naive_ptr cs @ bs)"
    by (simp add: naive_ptr_def w_def)
  then have "exec_straight lk (naive_ptr (c # cs) @ bs) m =
      exec_straight lk (naive_ptr cs @ bs) (set_r13 (r13 m + word_of_int w) m)"
    by (simp only: exec_enc_move_ptr[OF w])
  also have "\<dots> = exec_straight lk bs
     (set_r13 (r13 m + word_of_int (run_delta (CHR ''>'') (c # cs))) m)"
    unfolding Cons.IH
    by (simp add: set_r13_twice run_delta_Cons w_def run_delta_def add.assoc)
  finally show ?case by simp
qed

lemma u8_of_int_mod: "(word_of_int (d mod 256) :: u8) = word_of_int d"
  by (simp add: word_of_int_eq_iff take_bit_eq_mod)

lemma cell_immediate:
  fixes d :: int
  defines "n \<equiv> (if d mod 256 \<le> 128 then d mod 256 else d mod 256 - 256)"
  shows "- 128 \<le> n" "n \<le> 128" "(word_of_int n :: u8) = word_of_int d"
    "d mod 256 \<noteq> 0 \<Longrightarrow> n \<noteq> 0"
proof -
  have b: "0 \<le> d mod 256" "d mod 256 < 256" by simp_all
  from b show "- 128 \<le> n" "n \<le> 128" unfolding n_def by (auto split: if_splits)
  have "n mod 256 = d mod 256" by (simp add: n_def)
  then have "(word_of_int (n mod 256) :: u8) = word_of_int (d mod 256)" by simp
  then show "(word_of_int n :: u8) = word_of_int d" by (simp only: u8_of_int_mod)
  from b show "d mod 256 \<noteq> 0 \<Longrightarrow> n \<noteq> 0" unfolding n_def by (auto split: if_splits)
qed

lemma decode_enc_add_cell:
  "n \<noteq> 0 \<Longrightarrow> \<exists>ins. decode (enc_add_cell n) = Some (ins, length (enc_add_cell n))"
  by (simp add: enc_add_cell_def decode_def starts_def)

lemma decode_enc_move_ptr:
  "n \<noteq> 0 \<Longrightarrow> \<exists>ins. decode (enc_move_ptr n) = Some (ins, length (enc_move_ptr n))"
  by (simp add: enc_move_ptr_def decode_def starts_def)

lemma emit_add_cell_room:
  assumes "length (code st) + 5 \<le> CODE_SIZE"
  shows "\<exists>st'. emit_add_cell n st = Inr st' \<and> code st' = code st @ enc_add_cell n"
proof -
  have "length (enc_add_cell n) \<le> 5" by (simp add: enc_add_cell_def)
  with assms emit_add_cell_emits[of n st] show ?thesis
    by (auto simp: emits_def split: if_splits)
qed

lemma emit_move_ptr_room:
  assumes "length (code st) + 7 \<le> CODE_SIZE"
  shows "\<exists>st'. emit_move_ptr n st = Inr st' \<and> code st' = code st @ enc_move_ptr n"
proof -
  have "length (enc_move_ptr n) \<le> 7" by (simp add: enc_move_ptr_def)
  with assms emit_move_ptr_emits[of n st] show ?thesis
    by (auto simp: emits_def split: if_splits)
qed


lemma emits_code: "emits r st bs \<Longrightarrow> r = Inr st' \<Longrightarrow> code st' = code st @ bs"
  by (auto simp: emits_def split: if_splits)

lemma cell_run_transparent:
  assumes "r \<noteq> []" "set r \<subseteq> {CHR ''+'', CHR ''-''}" "ends_run {CHR ''+'', CHR ''-''} rest"
  shows "\<exists>bs m1 m2.
       (bs = [] \<or> (\<exists>ins. decode bs = Some (ins, length bs))) \<and>
       exec_straight lk bs m = Some m1 \<and> exec_straight lk (naive_cell r) m = Some m2 \<and>
       m2 = m1\<lparr>zf := zf m2\<rparr> \<and>
       mem m1 (cell_addr m) = mem m (cell_addr m) + word_of_int (run_delta (CHR ''+'') r) \<and>
       (\<forall>res. compile_loop lk (r @ rest) i fx st = Inr res \<longrightarrow>
          (\<exists>st'. compile_loop lk rest (i + length r) fx st' = Inr res \<and>
                 code st' = code st @ bs)) \<and>
       (\<not> verbose st \<and> length (code st) + 5 \<le> CODE_SIZE \<longrightarrow>
          (\<exists>st'. compile_loop lk (r @ rest) i fx st =
                   compile_loop lk rest (i + length r) fx st' \<and>
                 code st' = code st @ bs))"
proof -
  define d where "d = run_delta (CHR ''+'') r"
  define n where "n = (if d mod 256 \<le> 128 then d mod 256 else d mod 256 - 256)"
  define v where "v = mem m (cell_addr m)"
  note imm = cell_immediate[of d, folded n_def]
  have naive: "exec_straight lk (naive_cell r) m = Some (set_cell (v + word_of_int d) m)"
    using exec_naive_cell[of lk r "[]" m] assms(1) by (simp add: d_def v_def)
  have loop: "compile_loop lk (r @ rest) i fx st =
    (if d mod 256 = 0 then compile_loop lk rest (i + length r) fx st
     else bind_err (emit_add_cell n st) (\<lambda>s. compile_loop lk rest (i + length r) fx s))"
    by (simp add: compile_loop_cell_run[OF assms(1-3)] d_def n_def Let_def)
  show ?thesis
  proof (cases "d mod 256 = 0")
    case True
    then have z: "(word_of_int d :: u8) = 0"
      using u8_of_int_mod[of d] by simp
    have "set_cell (v + word_of_int d) m = m\<lparr>zf := zf (set_cell (v + word_of_int d) m)\<rparr>"
      by (simp add: z set_cell_def v_def)
    with True loop naive z show ?thesis
      by - (rule exI[of _ "[]"], rule exI[of _ m],
            rule exI[of _ "set_cell (v + word_of_int d) m"],
            (simp add: d_def[symmetric] v_def[symmetric]; blast))
  next
    case False
    from imm(4)[OF False] have n0: "n \<noteq> 0" .
    have ex: "exec_straight lk (enc_add_cell n) m = Some (set_cell (v + word_of_int d) m)"
      using exec_enc_add_cell[OF imm(1,2) n0, of lk "[]" m] by (simp add: imm(3) v_def)
    have mm: "mem (set_cell (v + word_of_int d) m) (cell_addr m) = v + word_of_int d"
      by (simp add: set_cell_twice)
    have l1: "\<exists>st'. compile_loop lk rest (i + length r) fx st' = Inr res \<and>
                 code st' = code st @ enc_add_cell n"
      if "compile_loop lk (r @ rest) i fx st = Inr res" for res
    proof (cases "emit_add_cell n st")
      case (Inl e)
      with that loop False show ?thesis by simp
    next
      case (Inr st')
      from emits_code[OF emit_add_cell_emits Inr] that loop False Inr show ?thesis by auto
    qed
    have l2: "\<exists>st'. compile_loop lk (r @ rest) i fx st =
                   compile_loop lk rest (i + length r) fx st' \<and>
                 code st' = code st @ enc_add_cell n"
      if "\<not> verbose st \<and> length (code st) + 5 \<le> CODE_SIZE"
    proof -
      from that emit_add_cell_room[of st n] obtain st' where
        "emit_add_cell n st = Inr st'" "code st' = code st @ enc_add_cell n"
        by blast
      with loop False show ?thesis by auto
    qed
    from naive ex mm decode_enc_add_cell[OF n0] l1 l2 show ?thesis
      by - (rule exI[of _ "enc_add_cell n"],
            rule exI[of _ "set_cell (v + word_of_int d) m"],
            rule exI[of _ "set_cell (v + word_of_int d) m"],
            simp add: d_def[symmetric] v_def[symmetric])
  qed
qed

lemma ptr_run_transparent:
  assumes "r \<noteq> []" "set r \<subseteq> {CHR ''>'', CHR ''<''}" "ends_run {CHR ''>'', CHR ''<''} rest"
    and "length r < 2 ^ 31"
  shows "\<exists>bs m1 m2.
       (bs = [] \<or> (\<exists>ins. decode bs = Some (ins, length bs))) \<and>
       exec_straight lk bs m = Some m1 \<and> exec_straight lk (naive_ptr r) m = Some m2 \<and>
       m2 = m1\<lparr>zf := zf m2\<rparr> \<and>
       r13 m1 = r13 m + word_of_int (run_delta (CHR ''>'') r) \<and>
       (\<forall>res. compile_loop lk (r @ rest) i fx st = Inr res \<longrightarrow>
          (\<exists>st'. compile_loop lk rest (i + length r) fx st' = Inr res \<and>
                 code st' = code st @ bs)) \<and>
       (\<not> verbose st \<and> length (code st) + 7 \<le> CODE_SIZE \<longrightarrow>
          (\<exists>st'. compile_loop lk (r @ rest) i fx st =
                   compile_loop lk rest (i + length r) fx st' \<and>
                 code st' = code st @ bs))"
proof -
  define d where "d = run_delta (CHR ''>'') r"
  have "\<bar>d\<bar> \<le> int (length r)" unfolding d_def by (rule run_delta_bound)
  moreover from assms(4) have "int (length r) < 2 ^ 31" by simp
  ultimately have b: "- (2 ^ 31) < d" "d < 2 ^ 31" by linarith+
  have naive: "exec_straight lk (naive_ptr r) m = Some (set_r13 (r13 m + word_of_int d) m)"
    using exec_naive_ptr[of lk r "[]" m] assms(1) by (simp add: d_def)
  have loop: "compile_loop lk (r @ rest) i fx st =
    (if d = 0 then compile_loop lk rest (i + length r) fx st
     else bind_err (emit_move_ptr d st) (\<lambda>s. compile_loop lk rest (i + length r) fx s))"
    by (simp add: compile_loop_ptr_run[OF assms(1-3)] d_def Let_def)
  show ?thesis
  proof (cases "d = 0")
    case True
    have "set_r13 (r13 m + word_of_int d) m = m\<lparr>zf := zf (set_r13 (r13 m + word_of_int d) m)\<rparr>"
      by (simp add: True set_r13_def)
    with True loop naive show ?thesis
      by - (rule exI[of _ "[]"], rule exI[of _ m],
            rule exI[of _ "set_r13 (r13 m + word_of_int d) m"],
            (simp add: d_def[symmetric]; blast))
  next
    case False
    have ex: "exec_straight lk (enc_move_ptr d) m = Some (set_r13 (r13 m + word_of_int d) m)"
      using exec_enc_move_ptr[OF b False, of lk "[]" m] by simp
    have l1: "\<exists>st'. compile_loop lk rest (i + length r) fx st' = Inr res \<and>
                 code st' = code st @ enc_move_ptr d"
      if "compile_loop lk (r @ rest) i fx st = Inr res" for res
    proof (cases "emit_move_ptr d st")
      case (Inl e)
      with that loop False show ?thesis by simp
    next
      case (Inr st')
      from emits_code[OF emit_move_ptr_emits Inr] that loop False Inr show ?thesis by auto
    qed
    have l2: "\<exists>st'. compile_loop lk (r @ rest) i fx st =
                   compile_loop lk rest (i + length r) fx st' \<and>
                 code st' = code st @ enc_move_ptr d"
      if "\<not> verbose st \<and> length (code st) + 7 \<le> CODE_SIZE"
    proof -
      from that emit_move_ptr_room[of st d] obtain st' where
        "emit_move_ptr d st = Inr st'" "code st' = code st @ enc_move_ptr d"
        by blast
      with loop False show ?thesis by auto
    qed
    from naive ex decode_enc_move_ptr[OF False] l1 l2 show ?thesis
      by - (rule exI[of _ "enc_move_ptr d"],
            rule exI[of _ "set_r13 (r13 m + word_of_int d) m"],
            rule exI[of _ "set_r13 (r13 m + word_of_int d) m"],
            simp add: d_def[symmetric] set_r13_twice)
  qed
qed


subsection \<open>The program stays inside defined behaviour\<close>

lemma validated_compile_only_overflow:
  assumes "validate_brackets src = Inr ()" and "compile lk src (initial_state v) = Inl e"
  shows "\<exists>u n. e = Buffer_overflow u n"
proof -
  from assms(1) obtain m f where vl: "validate_loop src 0 0 0 0 = Inr (0, m, f)" and m: "m \<le> 256"
    by (auto simp: validate_brackets_def MAX_NESTING_def split: sum.splits prod.splits if_splits)
  from vl have nn: "nonneg_from 0 src"
    by (rule validate_loop_nonneg) simp
  from validate_loop_ok[OF nn, of 0 0 0] vl have mx: "max_from 0 src \<le> 256"
    using m by auto
  let ?s0 = "after_prologue v"
  have lr: "loop_result lk v src = run_ops lk (ops src 0) [] ?s0"
    by (rule loop_result_run_ops)
  have tk: "tokenizes src 0 (ops src 0)" by (rule tokenizes_ops)
  show ?thesis
  proof (cases "loop_result lk v src")
    case (Inl e')
    with assms(2) have "e' = e" by (simp add: compile_loop_result)
    with Inl lr have "run_ops lk (ops src 0) [] ?s0 = Inl e" by simp
    from run_ops_only_overflow[OF tk this] nn mx show ?thesis by simp
  next
    case (Inr p)
    obtain fx st where p: "p = (fx, st)" by (cases p)
    with assms(2) Inr have "emit_epilogue st = Inl e" by (simp add: compile_loop_result)
    with emits_InlD[OF emit_epilogue_emits] show ?thesis by blast
  qed
qed

lemma finish_defined: "snd (finish fuel os st) \<noteq> Undefined"
  by (simp add: finish_def Let_def split: option.splits)

lemma build_defined:
  assumes "validate_brackets src = Inr ()"
  shows "snd (build fuel os v src) \<noteq> Undefined"
proof (cases "compile (link os) src (initial_state v)")
  case (Inl e)
  from validated_compile_only_overflow[OF assms Inl] obtain u n where "e = Buffer_overflow u n"
    by blast
  with Inl show ?thesis by (simp add: build_def Let_def)
next
  case (Inr st)
  with finish_defined[of fuel os st] show ?thesis by (simp add: build_def Let_def)
qed

lemma validate_and_build_defined: "snd (validate_and_build fuel os v src) \<noteq> Undefined"
proof (cases "validate_brackets src")
  case (Inl e)
  then show ?thesis by (simp add: validate_and_build_def)
next
  case (Inr u)
  then have "validate_brackets src = Inr ()" by simp
  from build_defined[OF this, of fuel os v] Inr show ?thesis
    by (simp add: validate_and_build_def)
qed

lemma main_defined: "snd (main fuel os prog args) \<noteq> Undefined"
  using validate_and_build_defined[of fuel os]
  by (simp add: main_def split: sum.splits option.splits)

section \<open>The claims\<close>

subsection \<open>C10: runs with no net effect emit no code\<close>

text \<open>
  Claim C10. A maximal run of \<open>+\<close>/\<open>-\<close> characters whose net delta is congruent to 0
  modulo 256, and a maximal run of \<open>>\<close>/\<open><\<close> characters whose net delta is 0, emit no
  machine code: the compile loop continues after the run with the code buffer, the log
  and the fixup stack it had before it. The scripts \<open>+-\<close> and \<open>><\<close> compile to the
  prologue followed by the epilogue.
\<close>

theorem zero_net_runs_emit_nothing:
  "(r \<noteq> [] \<and> set r \<subseteq> {CHR ''+'', CHR ''-''} \<and> ends_run {CHR ''+'', CHR ''-''} rest \<and>
      run_delta (CHR ''+'') r mod 256 = 0
    \<longrightarrow> compile_loop lk (r @ rest) i fx st = compile_loop lk rest (i + length r) fx st) \<and>
   (r \<noteq> [] \<and> set r \<subseteq> {CHR ''>'', CHR ''<''} \<and> ends_run {CHR ''>'', CHR ''<''} rest \<and>
      run_delta (CHR ''>'') r = 0
    \<longrightarrow> compile_loop lk (r @ rest) i fx st = compile_loop lk rest (i + length r) fx st) \<and>
   (\<exists>st'. compile lk ''+-'' (initial_state v) = Inr st' \<and> code st' = prologue @ epilogue) \<and>
   (\<exists>st'. compile lk ''><'' (initial_state v) = Inr st' \<and> code st' = prologue @ epilogue)"
proof (intro conjI impI)
  assume "r \<noteq> [] \<and> set r \<subseteq> {CHR ''+'', CHR ''-''} \<and> ends_run {CHR ''+'', CHR ''-''} rest \<and>
      run_delta (CHR ''+'') r mod 256 = 0"
  then show "compile_loop lk (r @ rest) i fx st = compile_loop lk rest (i + length r) fx st"
    by (simp add: compile_loop_cell_run)
next
  assume "r \<noteq> [] \<and> set r \<subseteq> {CHR ''>'', CHR ''<''} \<and> ends_run {CHR ''>'', CHR ''<''} rest \<and>
      run_delta (CHR ''>'') r = 0"
  then show "compile_loop lk (r @ rest) i fx st = compile_loop lk rest (i + length r) fx st"
    by (simp add: compile_loop_ptr_run)
next
  have "compile_loop lk (''+-'' @ []) 0 [] s = Inr ([], s)" for s
    by (subst compile_loop_cell_run) (simp_all add: ends_run_def run_delta_def compile_loop.simps)
  then show "\<exists>st'. compile lk ''+-'' (initial_state v) = Inr st' \<and> code st' = prologue @ epilogue"
    by (simp add: compile_def emit_prologue_def emit_epilogue_def emit_defs initial_state_def
        prologue_def epilogue_def CODE_SIZE_def)
next
  have "compile_loop lk (''><'' @ []) 0 [] s = Inr ([], s)" for s
    by (subst compile_loop_ptr_run) (simp_all add: ends_run_def run_delta_def compile_loop.simps)
  then show "\<exists>st'. compile lk ''><'' (initial_state v) = Inr st' \<and> code st' = prologue @ epilogue"
    by (simp add: compile_def emit_prologue_def emit_epilogue_def emit_defs initial_state_def
        prologue_def epilogue_def CODE_SIZE_def)
qed

theorem zero_net_runs_emit_nothing_witness:
  "compile_loop example_link ''+-.'' 0 [] (initial_state False) =
     compile_loop example_link ''.'' 2 [] (initial_state False) \<and>
   compile_loop example_link ''<<>>['' 7 [] (initial_state False) =
     compile_loop example_link ''['' 11 [] (initial_state False)"
  using zero_net_runs_emit_nothing[of "''+-''" "''.''" example_link 0 "[]" "initial_state False"]
    zero_net_runs_emit_nothing[of "''<<>>''" "''[''" example_link 7 "[]" "initial_state False"]
  by (simp add: ends_run_def run_delta_def numeral_2_eq_2)

subsection \<open>C3: 130 increments\<close>

text \<open>
  Claim C3 says that the script of 130 consecutive \<open>+\<close>, compiled and run on a zeroed
  cell, leaves the value 2 in it. It leaves 130: the run is collapsed to
  \<open>sub byte [r12+r13], 126\<close>, and \<open>0 - 126 = 130\<close> in eight bits. The first theorem
  evaluates the compiled code at one concrete set of addresses.
\<close>

theorem plus_130_does_not_leave_2:
  "(case run_script 11 example_link False (replicate 130 (CHR ''+'')) 0x7000 [] of
      None \<Rightarrow> False
    | Some m \<Rightarrow> mem m 0x7000 = 130 \<and> mem m 0x7000 \<noteq> 2)"
proof -
  obtain st where st: "compile example_link (replicate 130 (CHR ''+'')) (initial_state False) = Inr st"
    "code st = prologue @ [0x43, 0x80, 0x2c, 0x2c, 126] @ epilogue"
    using compile_130 by blast
  obtain m where m: "run 11 example_link (code st) (entry_state 0x7000 []) = Some m"
    "mem m = (\<lambda>a. 0)(0x7000 := 130)"
    using run_130[of example_link "0x7000" "[]"] st(2) by auto
  then show ?thesis
    using st(1) by (simp add: run_script_def jit_entry_def)
qed

text \<open>
  Claim C3, amended: for every pair of library addresses, every tape address, every input
  and every fuel of at least 11 instructions, the script of 130 consecutive \<open>+\<close>
  compiles, its code returns, and it leaves 130 in the first cell and 0 everywhere else,
  with no output.
\<close>

theorem plus_130_leaves_130:
  "\<exists>m. run_script (11 + k) lk v (replicate 130 (CHR ''+'')) tape stdin = Some m \<and>
     mem m = (\<lambda>a. 0)(tape := 130) \<and> outp m = []"
proof -
  obtain st where st: "compile lk (replicate 130 (CHR ''+'')) (initial_state v) = Inr st"
    "code st = prologue @ [0x43, 0x80, 0x2c, 0x2c, 126] @ epilogue"
    using compile_130 by blast
  obtain m where m: "run 11 lk (code st) (entry_state tape stdin) = Some m"
    "mem m = (\<lambda>a. 0)(tape := 130)" "outp m = []"
    using run_130[of lk tape stdin] st(2) by auto
  have "jit_entry (11 + k) lk (code st) tape stdin = Some m"
    unfolding jit_entry_def using m(1) by (rule run_more)
  with st(1) m(2,3) show ?thesis by (simp add: run_script_def)
qed

subsection \<open>C9: rejected command lines\<close>

text \<open>
  Claim C9 says that the program prints a usage message both when it is given a file name
  together with \<open>-e\<close> and when it is given neither. With neither it prints the usage
  message and returns 1. With both it prints one line, \<open>error: cannot use both -e and a
  filename\<close>, and returns 1 without calling \<open>usage\<close>, unlike the two other argument
  errors of the same loop.
\<close>

theorem both_inputs_print_no_usage:
  "main fuel os ''bf'' [''-e'', ''+'', ''prog.bf''] =
     ([Stderr ''error: cannot use both -e and a filename\<newline>''], Exit 1) \<and>
   Stderr (usage ''bf'') \<notin> set (fst (main fuel os ''bf'' [''-e'', ''+'', ''prog.bf''])) \<and>
   main fuel os ''bf'' [] = ([Stderr (usage ''bf'')], Exit 1) \<and>
   main fuel os ''bf'' [''-e''] =
     ([Stderr ''error: -e requires an argument\<newline>'', Stderr (usage ''bf'')], Exit 1) \<and>
   main fuel os ''bf'' [''-x''] =
     ([Stderr (''error: unknown option '' @ [CHR 0x27] @ ''-x'' @ [CHR 0x27] @ ''\<newline>''),
       Stderr (usage ''bf'')], Exit 1)"
  by (simp add: main_def usage_def)

subsection \<open>C5: the bracket validator\<close>

text \<open>
  Claim C5. The validator accepts every balanced script whose nesting depth is at most
  256, among them the script nested exactly 256 deep. For a source shorter than \<open>2^31\<close>
  characters: when an unmatched \<open>]\<close> follows a balanced prefix, \<open>main\<close> prints
  \<open>error: unmatched ']' at position p\<close>, where \<open>p\<close> is the position of that \<open>]\<close> in
  decimal; when the source is balanced except for one \<open>[\<close>, it prints
  \<open>error: unmatched '[' at position p (1 unclosed)\<close> with the position of that \<open>[\<close>; when
  the nesting depth reaches 257 the validator rejects the source, and for a balanced
  source \<open>main\<close> prints \<open>error: nesting depth d exceeds maximum 256\<close> with the depth
  \<open>d\<close> of the source. In each of these cases the message is the only event of \<open>main\<close>,
  which returns 1: no mapping, no write to the code buffer, no call. Three sources give
  the printed lines character by character, and \<open>show_nat\<close> prints the decimal digits of
  its argument.
\<close>

theorem bracket_validator_spec:
  "(balanced s \<and> nesting_depth s \<le> 256 \<longrightarrow> validate_brackets s = Inr ()) \<and>
   validate_brackets (replicate 256 (CHR ''['') @ replicate 256 (CHR '']'')) = Inr () \<and>
   (balanced a \<and> length (a @ CHR '']'' # b) < 2 ^ 31 \<and> src_malloc_ok os \<longrightarrow>
      validate_brackets (a @ CHR '']'' # b) = Inl (Unmatched_close (length a)) \<and>
      main fuel os prog [''-e'', a @ CHR '']'' # b] =
        ([Stderr (''error: unmatched '' @ [CHR 0x27] @ '']'' @ [CHR 0x27] @ '' at position '' @
                  show_nat (length a) @ ''\<newline>'')], Exit 1)) \<and>
   (balanced a \<and> balanced b \<and> length (a @ CHR ''['' # b) < 2 ^ 31 \<and> src_malloc_ok os \<longrightarrow>
      validate_brackets (a @ CHR ''['' # b) = Inl (Unmatched_open (length a) 1) \<and>
      main fuel os prog [''-e'', a @ CHR ''['' # b] =
        ([Stderr (''error: unmatched '' @ [CHR 0x27] @ ''['' @ [CHR 0x27] @ '' at position '' @
                  show_nat (length a) @ '' (1 unclosed)\<newline>'')], Exit 1)) \<and>
   (257 \<le> nesting_depth s \<and> length s < 2 ^ 31 \<and> src_malloc_ok os \<longrightarrow>
      (\<exists>e. validate_brackets s = Inl e) \<and>
      (\<exists>text. main fuel os prog [''-e'', s] = ([Stderr text], Exit 1)) \<and>
      (balanced s \<longrightarrow>
         main fuel os prog [''-e'', s] =
           ([Stderr (''error: nesting depth '' @ show_int (nesting_depth s) @
                     '' exceeds maximum 256\<newline>'')], Exit 1))) \<and>
   main fuel (os\<lparr>src_malloc_ok := True\<rparr>) ''bf'' [''-e'', ''[-]]+''] =
     ([Stderr (''error: unmatched '' @ [CHR 0x27] @ '']'' @ [CHR 0x27] @
               '' at position 3\<newline>'')], Exit 1) \<and>
   main fuel (os\<lparr>src_malloc_ok := True\<rparr>) ''bf'' [''-e'', ''>>>>>>>>>>>>[+[-]''] =
     ([Stderr (''error: unmatched '' @ [CHR 0x27] @ ''['' @ [CHR 0x27] @
               '' at position 12 (1 unclosed)\<newline>'')], Exit 1) \<and>
   main fuel (os\<lparr>src_malloc_ok := True\<rparr>) ''bf''
       [''-e'', replicate 257 (CHR ''['') @ replicate 257 (CHR '']'')] =
     ([Stderr ''error: nesting depth 257 exceeds maximum 256\<newline>''], Exit 1) \<and>
   read_digits (show_nat n) = n \<and> list_all is_digit (show_nat n)"
proof (intro conjI impI)
  show "validate_brackets (replicate 256 (CHR ''['') @ replicate 256 (CHR '']'')) = Inr ()"
    by (rule validate_accepts) (simp_all add: balanced_nest nesting_depth_nest)
next
  assume "balanced s \<and> nesting_depth s \<le> 256"
  then show "validate_brackets s = Inr ()" by (simp add: validate_accepts)
next
  assume h: "balanced a \<and> length (a @ CHR '']'' # b) < 2 ^ 31 \<and> src_malloc_ok os"
  then show v: "validate_brackets (a @ CHR '']'' # b) = Inl (Unmatched_close (length a))"
    by (simp add: validate_unmatched_close)
  from main_rejected[OF _ v, of os fuel prog] h
  show "main fuel os prog [''-e'', a @ CHR '']'' # b] =
        ([Stderr (''error: unmatched '' @ [CHR 0x27] @ '']'' @ [CHR 0x27] @ '' at position '' @
                  show_nat (length a) @ ''\<newline>'')], Exit 1)"
    by (simp add: validate_msg_def del: show_nat.simps)
next
  assume h: "balanced a \<and> balanced b \<and> length (a @ CHR ''['' # b) < 2 ^ 31 \<and> src_malloc_ok os"
  then show v: "validate_brackets (a @ CHR ''['' # b) = Inl (Unmatched_open (length a) 1)"
    by (simp add: validate_unmatched_open)
  have one: "show_int 1 = ''1''" by (simp add: show_int_def show_nat_1 show_nat_Suc_0 del: show_nat.simps)
  from main_rejected[OF _ v, of os fuel prog] h
  show "main fuel os prog [''-e'', a @ CHR ''['' # b] =
        ([Stderr (''error: unmatched '' @ [CHR 0x27] @ ''['' @ [CHR 0x27] @ '' at position '' @
                  show_nat (length a) @ '' (1 unclosed)\<newline>'')], Exit 1)"
    by (simp add: validate_msg_def one del: show_nat.simps)
next
  assume h: "257 \<le> nesting_depth s \<and> length s < 2 ^ 31 \<and> src_malloc_ok os"
  then obtain e where e: "validate_brackets s = Inl e"
    using validate_rejects_deep[of s] by blast
  then show "\<exists>e. validate_brackets s = Inl e" by blast
  from main_rejected[OF _ e, of os fuel prog] h
  show "\<exists>text. main fuel os prog [''-e'', s] = ([Stderr text], Exit 1)" by blast
  assume b: "balanced s"
  have m: "show_nat MAX_NESTING = ''256''"
    by (simp add: MAX_NESTING_def show_nat_256 del: show_nat.simps)
  from validate_deep_balanced[OF b] h
  have "validate_brackets s = Inl (Nesting_exceeds (nesting_depth s))" by simp
  from main_rejected[OF _ this, of os fuel prog] h
  show "main fuel os prog [''-e'', s] =
           ([Stderr (''error: nesting depth '' @ show_int (nesting_depth s) @
                     '' exceeds maximum 256\<newline>'')], Exit 1)"
    by (simp add: validate_msg_def m del: show_nat.simps)
next
  have v: "validate_brackets ''[-]]+'' = Inl (Unmatched_close 3)"
    by (simp add: validate_brackets_def)
  have os: "src_malloc_ok (os\<lparr>src_malloc_ok := True\<rparr>)" by simp
  show "main fuel (os\<lparr>src_malloc_ok := True\<rparr>) ''bf'' [''-e'', ''[-]]+''] =
     ([Stderr (''error: unmatched '' @ [CHR 0x27] @ '']'' @ [CHR 0x27] @
               '' at position 3\<newline>'')], Exit 1)"
    unfolding main_rejected[OF os v] by (simp add: validate_msg_def show_nat_3 del: show_nat.simps)
next
  have v: "validate_brackets ''>>>>>>>>>>>>[+[-]'' = Inl (Unmatched_open 12 1)"
    by (simp add: validate_brackets_def)
  have os: "src_malloc_ok (os\<lparr>src_malloc_ok := True\<rparr>)" by simp
  show "main fuel (os\<lparr>src_malloc_ok := True\<rparr>) ''bf'' [''-e'', ''>>>>>>>>>>>>[+[-]''] =
     ([Stderr (''error: unmatched '' @ [CHR 0x27] @ ''['' @ [CHR 0x27] @
               '' at position 12 (1 unclosed)\<newline>'')], Exit 1)"
    unfolding main_rejected[OF os v]
    by (simp add: validate_msg_def show_int_def show_nat_12 show_nat_1 show_nat_Suc_0 del: show_nat.simps)
next
  have v: "validate_brackets (replicate 257 (CHR ''['') @ replicate 257 (CHR '']'')) =
      Inl (Nesting_exceeds 257)"
    using validate_deep_balanced[OF balanced_nest, of 257] by (simp add: nesting_depth_nest)
  have os: "src_malloc_ok (os\<lparr>src_malloc_ok := True\<rparr>)" by simp
  show "main fuel (os\<lparr>src_malloc_ok := True\<rparr>) ''bf''
       [''-e'', replicate 257 (CHR ''['') @ replicate 257 (CHR '']'')] =
     ([Stderr ''error: nesting depth 257 exceeds maximum 256\<newline>''], Exit 1)"
    unfolding main_rejected[OF os v]
    by (simp add: validate_msg_def show_int_def MAX_NESTING_def show_nat_256 show_nat_257
             del: show_nat.simps)
next
  show "read_digits (show_nat n) = n" by (rule show_nat_reads_back)
next
  show "list_all is_digit (show_nat n)" by (rule show_nat_digits)
qed


theorem bracket_validator_spec_witness:
  "validate_brackets ''[-[+]]'' = Inr () \<and>
   main 0 example_os ''bf'' [''-e'', ''[-]]+''] =
     ([Stderr (''error: unmatched '' @ [CHR 0x27] @ '']'' @ [CHR 0x27] @
               '' at position 3\<newline>'')], Exit 1) \<and>
   main 0 example_os ''bf'' [''-e'', ''[-][+[]''] =
     ([Stderr (''error: unmatched '' @ [CHR 0x27] @ ''['' @ [CHR 0x27] @
               '' at position 3 (1 unclosed)\<newline>'')], Exit 1) \<and>
   (\<exists>text. main 0 example_os ''bf'' [''-e'', replicate 257 (CHR ''['')] =
      ([Stderr text], Exit 1)) \<and>
   main 0 example_os ''bf'' [''-e'', replicate 257 (CHR ''['') @ replicate 257 (CHR '']'')] =
     ([Stderr ''error: nesting depth 257 exceeds maximum 256\<newline>''], Exit 1)"
proof -
  have b1: "balanced ''[-[+]]''" "nesting_depth ''[-[+]]'' \<le> 256" "balanced ''[-]''"
    "balanced ''+[]''" "balanced ''+''"
    by (simp_all add: balanced_def nesting_depth_def bracket_weight_def)
  have deep: "257 \<le> nesting_depth (replicate 257 (CHR ''[''))"
    by (simp add: nesting_depth_def max_from_replicate_open)
  have nest: "balanced (replicate 257 (CHR ''['') @ replicate 257 (CHR '']''))"
    "nesting_depth (replicate 257 (CHR ''['') @ replicate 257 (CHR '']'')) = 257"
    by (simp_all add: balanced_nest nesting_depth_nest)
  have os: "src_malloc_ok example_os"
    by (simp add: example_os_def)
  have len: "length (''[-]'' @ CHR '']'' # ''+'') < 2 ^ 31"
    "length (''[-]'' @ CHR ''['' # ''+[]'') < 2 ^ 31"
    "length (replicate 257 (CHR ''['')) < 2 ^ 31"
    "length (replicate 257 (CHR ''['') @ replicate 257 (CHR '']'')) < 2 ^ 31"
    by simp_all
  have sh: "show_int 257 = ''257''"
    by (simp add: show_int_def show_nat_257 del: show_nat.simps)
  have c1: "validate_brackets ''[-[+]]'' = Inr ()"
    using bracket_validator_spec[where s = "''[-[+]]''"] b1 by blast
  have c2: "main 0 example_os ''bf'' [''-e'', ''[-]'' @ CHR '']'' # ''+''] =
     ([Stderr (''error: unmatched '' @ [CHR 0x27] @ '']'' @ [CHR 0x27] @ '' at position '' @
               show_nat (length ''[-]'') @ ''\<newline>'')], Exit 1)"
    using bracket_validator_spec[where a = "''[-]''" and b = "''+''" and os = example_os
        and fuel = 0 and prog = "''bf''"] b1 os len(1)
    by blast
  have c3: "main 0 example_os ''bf'' [''-e'', ''[-]'' @ CHR ''['' # ''+[]''] =
     ([Stderr (''error: unmatched '' @ [CHR 0x27] @ ''['' @ [CHR 0x27] @ '' at position '' @
               show_nat (length ''[-]'') @ '' (1 unclosed)\<newline>'')], Exit 1)"
    using bracket_validator_spec[where a = "''[-]''" and b = "''+[]''" and os = example_os
        and fuel = 0 and prog = "''bf''"] b1 os len(2)
    by blast
  have c4: "\<exists>text. main 0 example_os ''bf'' [''-e'', replicate 257 (CHR ''['')] =
      ([Stderr text], Exit 1)"
    using bracket_validator_spec[where s = "replicate 257 (CHR ''['')" and os = example_os
        and fuel = 0 and prog = "''bf''"] deep os len(3)
    by blast
  have c5: "main 0 example_os ''bf''
       [''-e'', replicate 257 (CHR ''['') @ replicate 257 (CHR '']'')] =
     ([Stderr (''error: nesting depth '' @
         show_int (nesting_depth (replicate 257 (CHR ''['') @ replicate 257 (CHR '']''))) @
         '' exceeds maximum 256\<newline>'')], Exit 1)"
    using bracket_validator_spec[where
        s = "replicate 257 (CHR ''['') @ replicate 257 (CHR '']'')" and os = example_os
        and fuel = 0 and prog = "''bf''"] nest os len(4)
    by simp
  have "length ''[-]'' = 3" by simp
  then have l3: "show_nat (length ''[-]'') = ''3''"
    by (simp only: show_nat_3)
  from c1 c2[unfolded l3] c3[unfolded l3] c4 c5[unfolded nest(2) sh] show ?thesis
    by (simp del: show_nat.simps replicate_append_same)
qed

subsection \<open>C6: the end of the source with an open loop\<close>

text \<open>
  Claim C6 says that \<open>compile\<close>, on any text, fails when it reaches the end of the source
  with a non-empty fixup stack. The function has no such check: after the loop it emits
  the epilogue and returns 0. On the text \<open>[\<close> the loop ends with one pending fixup, at
  offset 21, and \<open>compile\<close> succeeds with the placeholder still zero.
\<close>

theorem unresolved_loop_reports_success:
  "map_sum id fst (loop_result example_link False ''['') = Inr [21] \<and>
   code_of (compile example_link ''['' (initial_state False)) =
     Some (prologue @ cmp_cell_zero @ [0x0f, 0x84, 0, 0, 0, 0] @ epilogue)"
proof -
  have o: "ops ''['' 0 = [Op_open]"
    by (simp add: ops.simps)
  obtain st where st: "emit_loop_open (after_prologue False) = Inr (21, st)"
    "code st = prologue @ enc_open"
    using emit_loop_open_cases[of "after_prologue False"] by (auto simp: CODE_SIZE_def)
  have lr: "loop_result example_link False ''['' = Inr ([21], st)"
    by (simp add: loop_result_run_ops o st(1) MAX_NESTING_def)
  have "length (code st) + 6 \<le> CODE_SIZE"
    by (simp add: st(2) enc_open_def cmp_cell_zero_def CODE_SIZE_def)
  from emit_epilogue_code[OF this] obtain st' where
    "emit_epilogue st = Inr st'" "code st' = code st @ epilogue"
    by blast
  with lr st(2) show ?thesis
    by (simp add: compile_loop_result code_of_def enc_open_def u32_bytes_def)
qed

text \<open>
  Claim C6, amended: for every text that \<open>validate_brackets\<close> accepts (the only texts that
  \<open>main\<close> passes to \<open>compile\<close>), the loop of \<open>compile\<close> can only reach the end of the
  source with an empty fixup stack.
\<close>

theorem validated_script_ends_with_empty_stack:
  assumes "validate_brackets src = Inr ()"
  shows "\<forall>fx st. loop_result lk v src = Inr (fx, st) \<longrightarrow> fx = []"
proof -
  from assms obtain m f where vl: "validate_loop src 0 0 0 0 = Inr (0, m, f)"
    by (auto simp: validate_brackets_def MAX_NESTING_def split: sum.splits prod.splits if_splits)
  from vl have nn: "nonneg_from 0 src"
    by (rule validate_loop_nonneg) simp
  from validate_loop_ok[OF nn, of 0 0 0] vl have z: "depth_of src = 0"
    by auto
  have tk: "tokenizes src 0 (ops src 0)" by (rule tokenizes_ops)
  have "fx = []" if "loop_result lk v src = Inr (fx, st)" for fx st
  proof -
    from that have "run_ops lk (ops src 0) ([] @ []) (after_prologue v) = Inr (fx, st)"
      by (simp add: loop_result_run_ops)
    from run_ops_stack[OF tk this] nn z show ?thesis by auto
  qed
  then show ?thesis by blast
qed

theorem validated_script_ends_with_empty_stack_witness:
  "validate_brackets ''[]'' = Inr () \<and>
   map_sum id fst (loop_result example_link False ''[]'') = Inr []"
proof -
  have v: "validate_brackets ''[]'' = Inr ()"
    by (simp add: validate_brackets_def MAX_NESTING_def)
  have o: "ops ''[]'' 0 = [Op_open, Op_close 1]"
    by (simp add: ops.simps)
  let ?s0 = "after_prologue False"
  obtain s1 where s1: "emit_loop_open ?s0 = Inr (21, s1)" "code s1 = prologue @ enc_open"
    using emit_loop_open_cases[of ?s0] by (auto simp: CODE_SIZE_def)
  have "length (code s1) + 11 \<le> CODE_SIZE"
    by (simp add: s1(2) enc_open_def cmp_cell_zero_def CODE_SIZE_def)
  with emit_loop_close_cases[of s1 21] obtain s2 where
    s2: "emit_loop_close 21 s1 = Inr s2"
    by auto
  have "\<exists>fx. loop_result example_link False ''[]'' = Inr (fx, s2)"
    by (simp add: loop_result_run_ops o s1(1) s2 MAX_NESTING_def)
  then obtain fx where r: "loop_result example_link False ''[]'' = Inr (fx, s2)" ..
  with validated_script_ends_with_empty_stack[OF v, of example_link False] have "fx = []"
    by blast
  with r v show ?thesis
    by simp
qed

subsection \<open>C7: compiling twice\<close>

text \<open>
  Claim C7 says that two process invocations emit the same bytes for the same source. The
  code of \<open>.\<close> and \<open>,\<close> holds the absolute addresses of \<open>putchar\<close> and \<open>getchar\<close> in the
  running process; with the library loaded at another address the bytes differ.
\<close>

theorem compiled_code_depends_on_addresses:
  "code_of (compile example_link ''.'' (initial_state False)) \<noteq>
   code_of (compile other_link ''.'' (initial_state False))"
  by (simp add: code_of_def compile_def compile_loop.simps emit_prologue_def emit_epilogue_def
      emit_putchar_def emit_defs initial_state_def prologue_def epilogue_def CODE_SIZE_def
      example_link_def other_link_def u64_bytes_def vlog_push_def)

text \<open>
  Claim C7, amended: two compilations of the same source emit the same bytes (or both
  fail) whenever the two processes see \<open>putchar\<close> and \<open>getchar\<close> at the same addresses,
  whatever their verbosity flags; for a source without \<open>.\<close> and \<open>,\<close> they do so whatever the
  addresses.
\<close>

theorem compile_is_reproducible:
  assumes "(putchar_addr lk1 = putchar_addr lk2 \<and> getchar_addr lk1 = getchar_addr lk2) \<or>
           (CHR ''.'' \<notin> set src \<and> CHR '','' \<notin> set src)"
  shows "code_of (compile lk1 src (initial_state v1)) = code_of (compile lk2 src (initial_state v2))"
proof -
  have ag: "\<forall>x\<in>set (ops src 0). agree_on lk1 lk2 x"
    using assms ops_io[of src 0] by (auto simp: agree_on_def)
  have "code (after_prologue v1) = code (after_prologue v2)" by simp
  from run_ops_same[OF this ag, of "[]"]
  have sr: "same_result (loop_result lk1 v1 src) (loop_result lk2 v2 src)"
    by (simp add: loop_result_run_ops)
  show ?thesis
  proof (cases "loop_result lk1 v1 src")
    case (Inl e1)
    with sr obtain e2 where "loop_result lk2 v2 src = Inl e2"
      by (cases "loop_result lk2 v2 src") (auto simp: same_result_def)
    with Inl show ?thesis by (simp add: compile_loop_result code_of_def)
  next
    case (Inr p)
    with sr obtain q where q: "loop_result lk2 v2 src = Inr q" "code (snd p) = code (snd q)"
      by (cases "loop_result lk2 v2 src") (auto simp: same_result_def)
    have "code_of (emit_epilogue (snd p)) = code_of (emit_epilogue (snd q))"
      using emit_epilogue_emits[of "snd p"] emit_epilogue_emits[of "snd q"] q(2)
      by (auto simp: emits_def code_of_def split: if_splits)
    with Inr q(1) show ?thesis by (simp add: compile_loop_result split_def)
  qed
qed

theorem compile_is_reproducible_witness:
  "code_of (compile example_link ''+[-]'' (initial_state False)) =
     code_of (compile other_link ''+[-]'' (initial_state True)) \<and>
   code_of (compile example_link ''.'' (initial_state False)) =
     code_of (compile example_link ''.'' (initial_state True))"
  using compile_is_reproducible[of example_link other_link "''+[-]''" False True]
    compile_is_reproducible[of example_link example_link "''.''" False True]
  by simp

subsection \<open>C1: loop fixups\<close>

text \<open>
  Claim C1. In a script that the validator accepts and that compiles, every \<open>[\<close> has a
  matching \<open>]\<close> and every \<open>]\<close> a matching \<open>[\<close>, and for every matching pair the rel32
  displacement patched into the \<open>je\<close> of the loop-open lands on the first byte after the
  eleven-byte block of the loop-close, and the rel32 displacement of the \<open>jne\<close> of the
  loop-close lands on the first byte of the compare instruction of the loop-open. Both
  are relative to the address that follows the four-byte displacement field.
\<close>

theorem loop_fixups_exact:
  assumes "validate_brackets src = Inr ()" and "compile lk src (initial_state v) = Inr st"
  shows "(\<forall>k<length src. src ! k = CHR ''['' \<longrightarrow>
            (\<exists>j. matching src k j \<and> jumps_exact lk v src (code st) k j)) \<and>
         (\<forall>j<length src. src ! j = CHR '']'' \<longrightarrow>
            (\<exists>k. matching src k j \<and> jumps_exact lk v src (code st) k j)) \<and>
         (\<forall>k j. matching src k j \<longrightarrow> jumps_exact lk v src (code st) k j)"
proof -
  from assms(1) have bal: "balanced src" by (rule validated_balanced)
  have ex: "jumps_exact lk v src (code st) k j" if "matching src k j" for k j
    using assms(2) that by (rule matching_jumps_exact)
  have "\<exists>j. matching src k j \<and> jumps_exact lk v src (code st) k j"
    if "k < length src" "src ! k = CHR ''[''" for k
    using matching_close_exists[OF bal that] ex by blast
  moreover have "\<exists>k. matching src k j \<and> jumps_exact lk v src (code st) k j"
    if "j < length src" "src ! j = CHR '']''" for j
    using matching_open_exists[OF bal that] ex by blast
  ultimately show ?thesis using ex by blast
qed


theorem loop_fixups_exact_witness:
  "validate_brackets ''[]'' = Inr () \<and>
   (case compile example_link ''[]'' (initial_state False) of
      Inl e \<Rightarrow> False
    | Inr st \<Rightarrow> matching ''[]'' 0 1 \<and> jumps_exact example_link False ''[]'' (code st) 0 1)"
proof -
  have v: "validate_brackets ''[]'' = Inr ()"
    by (simp add: validate_brackets_def MAX_NESTING_def)
  have o: "ops ''[]'' 0 = [Op_open, Op_close 1]"
    by (simp add: ops.simps)
  let ?s0 = "after_prologue False"
  obtain s1 where s1: "emit_loop_open ?s0 = Inr (21, s1)" "code s1 = prologue @ enc_open"
    using emit_loop_open_cases[of ?s0] by (auto simp: CODE_SIZE_def)
  have "length (code s1) + 11 \<le> CODE_SIZE"
    by (simp add: s1(2) CODE_SIZE_def)
  with emit_loop_close_cases[of s1 21] obtain s2 where
    s2: "emit_loop_close 21 s1 = Inr s2" "length (code s2) = 36"
    by (auto simp: s1(2))
  have r: "loop_result example_link False ''[]'' = Inr ([], s2)"
    by (simp add: loop_result_run_ops o s1(1) s2(1) MAX_NESTING_def)
  have "length (code s2) + 6 \<le> CODE_SIZE"
    by (simp add: s2(2) CODE_SIZE_def)
  from emit_epilogue_code[OF this] obtain st where st: "emit_epilogue s2 = Inr st"
    by blast
  with r have comp: "compile example_link ''[]'' (initial_state False) = Inr st"
    by (simp add: compile_loop_result)
  have m: "matching ''[]'' 0 1"
    by (simp add: matching_def balanced_def)
  from loop_fixups_exact[OF v comp] m
  have "jumps_exact example_link False ''[]'' (code st) 0 1"
    by blast
  with v comp m show ?thesis by simp
qed

subsection \<open>C8: the exits inside the compiler\<close>

text \<open>
  Claim C8 says that every error path unmaps the regions it has mapped before the program
  exits with a non-zero status. The overflow check of the code buffer, \<open>check_space\<close>,
  prints its message and calls \<open>exit(1)\<close> itself, inside \<open>compile\<close>. The script of 61681
  characters \<open>.\<close> reaches it: after the 14 bytes of the prologue each \<open>.\<close> takes 17 bytes,
  and the last one asks for 5 bytes at offset 1048574 of the 1048576. Then \<open>main\<close> ends
  with status 1 after the two mappings, and its events hold no \<open>munmap\<close>. The exit of
  \<open>vlog_push\<close>, when the log cannot be allocated in verbose mode, leaves both regions
  mapped in the same way. The error path next to them in \<open>main\<close>, a refused \<open>mprotect\<close>,
  unmaps the tape and the code buffer before it returns 1.
\<close>

theorem overflow_exit_skips_unmap:
  "main fuel (os\<lparr>src_malloc_ok := True, mmap_code_ok := True, mmap_tape_ok := True\<rparr>) ''bf''
       [''-e'', replicate 61681 (CHR ''.'')] =
     ([Mmap Code_buffer rw True, Mmap Tape_buffer rw True, Code_written,
       Stderr ''error: code buffer overflow (1048574 bytes used, need 5 more)\<newline>''],
      Exit 1) \<and>
   Munmap Code_buffer \<notin> set (fst (main fuel
       (os\<lparr>src_malloc_ok := True, mmap_code_ok := True, mmap_tape_ok := True\<rparr>) ''bf''
       [''-e'', replicate 61681 (CHR ''.'')])) \<and>
   Munmap Tape_buffer \<notin> set (fst (main fuel
       (os\<lparr>src_malloc_ok := True, mmap_code_ok := True, mmap_tape_ok := True\<rparr>) ''bf''
       [''-e'', replicate 61681 (CHR ''.'')])) \<and>
   main fuel (os\<lparr>src_malloc_ok := True, vlog_realloc_ok := False, mmap_code_ok := True,
                  mmap_tape_ok := True\<rparr>) ''bf'' [''-v'', ''-e'', ''+''] =
     ([Mmap Code_buffer rw True, Mmap Tape_buffer rw True, Code_written, Perror ''realloc''],
      Exit 1) \<and>
   main fuel (os\<lparr>src_malloc_ok := True, mmap_code_ok := True, mmap_tape_ok := True,
                  mprotect_ok := False\<rparr>) ''bf'' [''-e'', ''+''] =
     ([Mmap Code_buffer rw True, Mmap Tape_buffer rw True, Code_written,
       Mprotect Code_buffer rx False, Perror mprotect_text,
       Stderr (sandbox_hint ''mprotect''), Munmap Tape_buffer, Munmap Code_buffer],
      Exit 1)"
proof -
  have v2: "validate_brackets ''+'' = Inr ()"
    by (simp add: validate_brackets_def MAX_NESTING_def)
  obtain s2 where c2: "compile (link os) ''+'' (initial_state False) = Inr s2"
    and vb: "verbose s2 = False"
    using compile_plus[of "link os" False] by blast
  have m1: "main fuel (os\<lparr>src_malloc_ok := True, mmap_code_ok := True, mmap_tape_ok := True\<rparr>)
       ''bf'' [''-e'', replicate 61681 (CHR ''.'')] =
     ([Mmap Code_buffer rw True, Mmap Tape_buffer rw True, Code_written,
       Stderr ''error: code buffer overflow (1048574 bytes used, need 5 more)\<newline>''],
      Exit 1)"
    by (rule main_dots_overflow) simp_all
  have m2: "main fuel (os\<lparr>src_malloc_ok := True, vlog_realloc_ok := False, mmap_code_ok := True,
                  mmap_tape_ok := True\<rparr>) ''bf'' [''-v'', ''-e'', ''+''] =
     ([Mmap Code_buffer rw True, Mmap Tape_buffer rw True, Code_written, Perror ''realloc''],
      Exit 1)"
    by (simp add: main_def validate_and_build_def v2 build_def)
  have m3: "main fuel (os\<lparr>src_malloc_ok := True, mmap_code_ok := True, mmap_tape_ok := True,
                  mprotect_ok := False\<rparr>) ''bf'' [''-e'', ''+''] =
     ([Mmap Code_buffer rw True, Mmap Tape_buffer rw True, Code_written,
       Mprotect Code_buffer rx False, Perror mprotect_text,
       Stderr (sandbox_hint ''mprotect''), Munmap Tape_buffer, Munmap Code_buffer],
      Exit 1)"
    by (simp add: main_def validate_and_build_def v2 build_def c2 finish_def vb)
  have n1: "Munmap Code_buffer \<notin> set (fst (main fuel
       (os\<lparr>src_malloc_ok := True, mmap_code_ok := True, mmap_tape_ok := True\<rparr>) ''bf''
       [''-e'', replicate 61681 (CHR ''.'')]))"
    unfolding m1 by simp
  have n2: "Munmap Tape_buffer \<notin> set (fst (main fuel
       (os\<lparr>src_malloc_ok := True, mmap_code_ok := True, mmap_tape_ok := True\<rparr>) ''bf''
       [''-e'', replicate 61681 (CHR ''.'')]))"
    unfolding m1 by simp
  show ?thesis by (rule conjI[OF m1 conjI[OF n1 conjI[OF n2 conjI[OF m2 m3]]]])
qed

subsection \<open>C4: the code buffer is never writable and executable\<close>

text \<open>
  Claim C4. In every run of \<open>main\<close>, whatever the arguments, the files, the answers of the
  operating system and the fuel of the generated code: the program does not run into
  undefined behaviour (the validator keeps \<open>compile\<close> inside its fixup array), so that
  the events are all that happens; the events follow the discipline of the monitor
  \<open>wx_step\<close>; after every prefix of the events the protection of the code
  buffer does not hold both \<open>PROT_WRITE\<close> and \<open>PROT_EXEC\<close>; at most one \<open>mprotect\<close> of the
  code buffer succeeds, and exactly one when the generated code is called; and where it
  succeeds, the buffer is \<open>rw\<close> before it and \<open>rx\<close> after it, \<open>compile\<close> has run before it and
  does not run after it, and the generated code has not been called before it.
\<close>

theorem code_region_never_writable_and_executable:
  "snd (main fuel os prog args) \<noteq> Undefined \<and>
   (\<exists>ph. wx_run Unmapped (fst (main fuel os prog args)) = Some ph) \<and>
   \<not> writable_and_executable (code_prot (take n (fst (main fuel os prog args)))) \<and>
   length (filter is_flip (fst (main fuel os prog args))) \<le> 1 \<and>
   (Jit_call \<in> set (fst (main fuel os prog args)) \<longrightarrow>
      length (filter is_flip (fst (main fuel os prog args))) = 1) \<and>
   (fst (main fuel os prog args) = a @ e # b \<and> is_flip e \<longrightarrow>
      code_prot a = rw \<and> code_prot (a @ [e]) = rx \<and>
      Code_written \<in> set a \<and> Code_written \<notin> set b \<and> Jit_call \<notin> set a \<and>
      filter is_flip a = [] \<and> filter is_flip b = [])"
proof -
  obtain ph where ph: "wx_run Unmapped (fst (main fuel os prog args)) = Some ph"
    using main_accepted by blast
  have 5: "code_prot a = rw \<and> code_prot (a @ [e]) = rx \<and>
      Code_written \<in> set a \<and> Code_written \<notin> set b \<and> Jit_call \<notin> set a \<and>
      filter is_flip a = [] \<and> filter is_flip b = []"
    if "fst (main fuel os prog args) = a @ e # b \<and> is_flip e"
  proof -
    from that ph have "wx_run Unmapped (a @ e # b) = Some ph" by simp
    from wx_run_split[OF this] that show ?thesis by simp
  qed
  from ph wx_run_never_wx[OF ph, of n] wx_run_flips[OF ph] 5 main_defined[of fuel os prog args]
  show ?thesis
    by blast
qed

theorem code_region_never_writable_and_executable_witness:
  "fst (main 11 example_os ''bf'' [''-e'', replicate 130 (CHR ''+'')]) =
     [Mmap Code_buffer rw True, Mmap Tape_buffer rw True, Code_written] @
     Mprotect Code_buffer rx True #
     [Jit_call, Stdout [], Munmap Tape_buffer, Munmap Code_buffer] \<and>
   is_flip (Mprotect Code_buffer rx True) \<and>
   Jit_call \<in> set (fst (main 11 example_os ''bf'' [''-e'', replicate 130 (CHR ''+'')])) \<and>
   length (filter is_flip (fst (main 11 example_os ''bf'' [''-e'', replicate 130 (CHR ''+'')]))) = 1 \<and>
   code_prot [Mmap Code_buffer rw True, Mmap Tape_buffer rw True, Code_written] = rw \<and>
   code_prot ([Mmap Code_buffer rw True, Mmap Tape_buffer rw True, Code_written] @
              [Mprotect Code_buffer rx True]) = rx"
proof -
  have t: "fst (main 11 example_os ''bf'' [''-e'', replicate 130 (CHR ''+'')]) =
     [Mmap Code_buffer rw True, Mmap Tape_buffer rw True, Code_written] @
     Mprotect Code_buffer rx True #
     [Jit_call, Stdout [], Munmap Tape_buffer, Munmap Code_buffer]"
    unfolding main_130 by simp
  have f: "is_flip (Mprotect Code_buffer rx True)" by simp
  have j: "Jit_call \<in> set (fst (main 11 example_os ''bf'' [''-e'', replicate 130 (CHR ''+'')]))"
    unfolding main_130 by simp
  from code_region_never_writable_and_executable[of 11 example_os "''bf''"
      "[''-e'', replicate 130 (CHR ''+'')]" 0
      "[Mmap Code_buffer rw True, Mmap Tape_buffer rw True, Code_written]"
      "Mprotect Code_buffer rx True"
      "[Jit_call, Stdout [], Munmap Tape_buffer, Munmap Code_buffer]"] t f j
  show ?thesis by blast
qed

subsection \<open>C2: collapsing a run does not change what it computes\<close>

text \<open>
  Claim C2. Take a maximal run of \<open>+\<close>/\<open>-\<close> characters, or of \<open>>\<close>/\<open><\<close> characters, shorter
  than \<open>2^31\<close> characters, at any position of the source. There is a byte sequence,
  empty or the encoding of one instruction, such that: executed from any machine state,
  it and the expansion of the run with one instruction for each character both
  terminate, in states that agree on everything but the zero flag (the empty code of a
  run with no net effect leaves the flag as it was), so with the same memory and the
  same \<open>r13\<close>; the current cell holds its old value plus the net delta of the run in eight
  bits, respectively \<open>r13\<close> holds the old position plus the net delta of the run; whenever
  the compile loop succeeds on the text from the run on, it has appended exactly these
  bytes for the run and gone on with the text after it; and it does append them and go
  on when the log is off and the code buffer has room for one instruction.
\<close>

theorem run_collapsing_is_transparent:
  "(r \<noteq> [] \<and> set r \<subseteq> {CHR ''+'', CHR ''-''} \<and> ends_run {CHR ''+'', CHR ''-''} rest \<and>
      length r < 2 ^ 31 \<longrightarrow>
    (\<exists>bs m1 m2.
       (bs = [] \<or> (\<exists>ins. decode bs = Some (ins, length bs))) \<and>
       exec_straight lk bs m = Some m1 \<and> exec_straight lk (naive_cell r) m = Some m2 \<and>
       m2 = m1\<lparr>zf := zf m2\<rparr> \<and>
       mem m1 (cell_addr m) = mem m (cell_addr m) + word_of_int (run_delta (CHR ''+'') r) \<and>
       (\<forall>res. compile_loop lk (r @ rest) i fx st = Inr res \<longrightarrow>
          (\<exists>st'. compile_loop lk rest (i + length r) fx st' = Inr res \<and>
                 code st' = code st @ bs)) \<and>
       (\<not> verbose st \<and> length (code st) + 5 \<le> CODE_SIZE \<longrightarrow>
          (\<exists>st'. compile_loop lk (r @ rest) i fx st =
                   compile_loop lk rest (i + length r) fx st' \<and>
                 code st' = code st @ bs)))) \<and>
   (r \<noteq> [] \<and> set r \<subseteq> {CHR ''>'', CHR ''<''} \<and> ends_run {CHR ''>'', CHR ''<''} rest \<and>
      length r < 2 ^ 31 \<longrightarrow>
    (\<exists>bs m1 m2.
       (bs = [] \<or> (\<exists>ins. decode bs = Some (ins, length bs))) \<and>
       exec_straight lk bs m = Some m1 \<and> exec_straight lk (naive_ptr r) m = Some m2 \<and>
       m2 = m1\<lparr>zf := zf m2\<rparr> \<and>
       r13 m1 = r13 m + word_of_int (run_delta (CHR ''>'') r) \<and>
       (\<forall>res. compile_loop lk (r @ rest) i fx st = Inr res \<longrightarrow>
          (\<exists>st'. compile_loop lk rest (i + length r) fx st' = Inr res \<and>
                 code st' = code st @ bs)) \<and>
       (\<not> verbose st \<and> length (code st) + 7 \<le> CODE_SIZE \<longrightarrow>
          (\<exists>st'. compile_loop lk (r @ rest) i fx st =
                   compile_loop lk rest (i + length r) fx st' \<and>
                 code st' = code st @ bs))))"
proof (intro conjI impI)
  assume "r \<noteq> [] \<and> set r \<subseteq> {CHR ''+'', CHR ''-''} \<and> ends_run {CHR ''+'', CHR ''-''} rest \<and>
      length r < 2 ^ 31"
  then have h: "r \<noteq> []" "set r \<subseteq> {CHR ''+'', CHR ''-''}" "ends_run {CHR ''+'', CHR ''-''} rest"
    by simp_all
  show "\<exists>bs m1 m2.
       (bs = [] \<or> (\<exists>ins. decode bs = Some (ins, length bs))) \<and>
       exec_straight lk bs m = Some m1 \<and> exec_straight lk (naive_cell r) m = Some m2 \<and>
       m2 = m1\<lparr>zf := zf m2\<rparr> \<and>
       mem m1 (cell_addr m) = mem m (cell_addr m) + word_of_int (run_delta (CHR ''+'') r) \<and>
       (\<forall>res. compile_loop lk (r @ rest) i fx st = Inr res \<longrightarrow>
          (\<exists>st'. compile_loop lk rest (i + length r) fx st' = Inr res \<and>
                 code st' = code st @ bs)) \<and>
       (\<not> verbose st \<and> length (code st) + 5 \<le> CODE_SIZE \<longrightarrow>
          (\<exists>st'. compile_loop lk (r @ rest) i fx st =
                   compile_loop lk rest (i + length r) fx st' \<and>
                 code st' = code st @ bs))"
    by (rule cell_run_transparent[OF h])
next
  assume "r \<noteq> [] \<and> set r \<subseteq> {CHR ''>'', CHR ''<''} \<and> ends_run {CHR ''>'', CHR ''<''} rest \<and>
      length r < 2 ^ 31"
  then have h: "r \<noteq> []" "set r \<subseteq> {CHR ''>'', CHR ''<''}" "ends_run {CHR ''>'', CHR ''<''} rest"
    "length r < 2 ^ 31"
    by simp_all
  show "\<exists>bs m1 m2.
       (bs = [] \<or> (\<exists>ins. decode bs = Some (ins, length bs))) \<and>
       exec_straight lk bs m = Some m1 \<and> exec_straight lk (naive_ptr r) m = Some m2 \<and>
       m2 = m1\<lparr>zf := zf m2\<rparr> \<and>
       r13 m1 = r13 m + word_of_int (run_delta (CHR ''>'') r) \<and>
       (\<forall>res. compile_loop lk (r @ rest) i fx st = Inr res \<longrightarrow>
          (\<exists>st'. compile_loop lk rest (i + length r) fx st' = Inr res \<and>
                 code st' = code st @ bs)) \<and>
       (\<not> verbose st \<and> length (code st) + 7 \<le> CODE_SIZE \<longrightarrow>
          (\<exists>st'. compile_loop lk (r @ rest) i fx st =
                   compile_loop lk rest (i + length r) fx st' \<and>
                 code st' = code st @ bs))"
    by (rule ptr_run_transparent[OF h])
qed

theorem run_collapsing_is_transparent_witness:
  "(''+++'' \<noteq> [] \<and> set ''+++'' \<subseteq> {CHR ''+'', CHR ''-''} \<and>
    ends_run {CHR ''+'', CHR ''-''} [] \<and> length ''+++'' < 2 ^ 31 \<and>
    \<not> verbose (initial_state False) \<and> length (code (initial_state False)) + 5 \<le> CODE_SIZE) \<and>
   (\<exists>bs st' m1 m2.
       compile_loop example_link ''+++'' 0 [] (initial_state False) = Inr ([], st') \<and>
       code st' = bs \<and>
       exec_straight example_link bs example_machine = Some m1 \<and>
       exec_straight example_link (naive_cell ''+++'') example_machine = Some m2 \<and>
       m2 = m1\<lparr>zf := zf m2\<rparr> \<and> mem m1 0x7000 = 3) \<and>
   (''>><'' \<noteq> [] \<and> set ''>><'' \<subseteq> {CHR ''>'', CHR ''<''} \<and>
    ends_run {CHR ''>'', CHR ''<''} [] \<and> length ''>><'' < 2 ^ 31 \<and>
    \<not> verbose (initial_state False) \<and> length (code (initial_state False)) + 7 \<le> CODE_SIZE) \<and>
   (\<exists>bs st' m1 m2.
       compile_loop example_link ''>><'' 0 [] (initial_state False) = Inr ([], st') \<and>
       code st' = bs \<and>
       exec_straight example_link bs example_machine = Some m1 \<and>
       exec_straight example_link (naive_ptr ''>><'') example_machine = Some m2 \<and>
       m2 = m1\<lparr>zf := zf m2\<rparr> \<and> r13 m1 = 1)"
proof -
  have c: "''+++'' \<noteq> [] \<and> set ''+++'' \<subseteq> {CHR ''+'', CHR ''-''} \<and>
    ends_run {CHR ''+'', CHR ''-''} [] \<and> length ''+++'' < 2 ^ 31"
    by (simp add: ends_run_def)
  have p: "''>><'' \<noteq> [] \<and> set ''>><'' \<subseteq> {CHR ''>'', CHR ''<''} \<and>
    ends_run {CHR ''>'', CHR ''<''} [] \<and> length ''>><'' < 2 ^ 31"
    by (simp add: ends_run_def)
  have q: "\<not> verbose (initial_state False) \<and> length (code (initial_state False)) + 5 \<le> CODE_SIZE"
    "\<not> verbose (initial_state False) \<and> length (code (initial_state False)) + 7 \<le> CODE_SIZE"
    by (simp_all add: initial_state_def CODE_SIZE_def)
  have e: "code (initial_state False) = []" "run_delta (CHR ''+'') ''+++'' = 3"
    "run_delta (CHR ''>'') ''>><'' = 1"
    "cell_addr example_machine = 0x7000" "mem example_machine 0x7000 = 0"
    "r13 example_machine = 0"
    by (simp_all add: initial_state_def run_delta_def cell_addr_def entry_state_def
        example_machine_def)
  from run_collapsing_is_transparent[of "''+++''" "[]" example_link example_machine 0 "[]"
      "initial_state False"] c q(1)
  obtain bs m1 m2 st' where a:
    "exec_straight example_link bs example_machine = Some m1"
    "exec_straight example_link (naive_cell ''+++'') example_machine = Some m2"
    "m2 = m1\<lparr>zf := zf m2\<rparr>"
    "mem m1 (cell_addr example_machine) =
         mem example_machine (cell_addr example_machine) +
         word_of_int (run_delta (CHR ''+'') ''+++'')"
    "compile_loop example_link (''+++'' @ []) 0 [] (initial_state False) =
       compile_loop example_link [] (0 + length ''+++'') [] st'"
    "code st' = code (initial_state False) @ bs"
    by blast
  have 1: "\<exists>bs st' m1 m2.
       compile_loop example_link ''+++'' 0 [] (initial_state False) = Inr ([], st') \<and>
       code st' = bs \<and>
       exec_straight example_link bs example_machine = Some m1 \<and>
       exec_straight example_link (naive_cell ''+++'') example_machine = Some m2 \<and>
       m2 = m1\<lparr>zf := zf m2\<rparr> \<and> mem m1 0x7000 = 3"
  proof (rule exI[of _ bs], rule exI[of _ st'], rule exI[of _ m1], rule exI[of _ m2],
      intro conjI)
    show "compile_loop example_link ''+++'' 0 [] (initial_state False) = Inr ([], st')"
      using a(5) by simp
    show "code st' = bs" using a(6) by (simp add: e)
    show "exec_straight example_link bs example_machine = Some m1" by (rule a(1))
    show "exec_straight example_link (naive_cell ''+++'') example_machine = Some m2"
      by (rule a(2))
    show "m2 = m1\<lparr>zf := zf m2\<rparr>" by (rule a(3))
    show "mem m1 0x7000 = 3" using a(4) by (simp add: e)
  qed
  from run_collapsing_is_transparent[of "''>><''" "[]" example_link example_machine 0 "[]"
      "initial_state False"] p q(2)
  obtain bs2 m3 m4 st2 where b:
    "exec_straight example_link bs2 example_machine = Some m3"
    "exec_straight example_link (naive_ptr ''>><'') example_machine = Some m4"
    "m4 = m3\<lparr>zf := zf m4\<rparr>"
    "r13 m3 = r13 example_machine + word_of_int (run_delta (CHR ''>'') ''>><'')"
    "compile_loop example_link (''>><'' @ []) 0 [] (initial_state False) =
       compile_loop example_link [] (0 + length ''>><'') [] st2"
    "code st2 = code (initial_state False) @ bs2"
    by blast
  have 2: "\<exists>bs st' m1 m2.
       compile_loop example_link ''>><'' 0 [] (initial_state False) = Inr ([], st') \<and>
       code st' = bs \<and>
       exec_straight example_link bs example_machine = Some m1 \<and>
       exec_straight example_link (naive_ptr ''>><'') example_machine = Some m2 \<and>
       m2 = m1\<lparr>zf := zf m2\<rparr> \<and> r13 m1 = 1"
  proof (rule exI[of _ bs2], rule exI[of _ st2], rule exI[of _ m3], rule exI[of _ m4],
      intro conjI)
    show "compile_loop example_link ''>><'' 0 [] (initial_state False) = Inr ([], st2)"
      using b(5) by simp
    show "code st2 = bs2" using b(6) by (simp add: e)
    show "exec_straight example_link bs2 example_machine = Some m3" by (rule b(1))
    show "exec_straight example_link (naive_ptr ''>><'') example_machine = Some m4"
      by (rule b(2))
    show "m4 = m3\<lparr>zf := zf m4\<rparr>" by (rule b(3))
    show "r13 m3 = 1" using b(4) by (simp add: e)
  qed
  from c p q 1 2 show ?thesis by blast
qed

end
